theory Spec2Isabelle
  imports Main "HOL-Library.AList" "HOL-Library.Char_ord" "HOL-Library.List_Lexorder"
begin

section \<open>Data model of the web services (src/web/services.py)\<close>

text \<open>
  A Python \<open>dict\<close> keeps its keys in insertion order, and \<open>list_tasks\<close> depends on that
  order (its sort is stable), so a dict is an association list: \<open>d.get(k)\<close> is
  \<open>dict_get\<close>, \<open>d[k] = v\<close> is \<open>dict_set\<close> (an existing key keeps its place, a new one
  goes last) and \<open>del d[k]\<close> is \<open>dict_del\<close>. The keys of a dict are distinct.
\<close>

type_synonym ('k, 'v) dict = "('k \<times> 'v) list"

definition dict_get :: "('k, 'v) dict \<Rightarrow> 'k \<Rightarrow> 'v option" where
  "dict_get d k = map_of d k"

definition dict_set :: "('k, 'v) dict \<Rightarrow> 'k \<Rightarrow> 'v \<Rightarrow> ('k, 'v) dict" where
  "dict_set d k v = AList.update k v d"

definition dict_del :: "('k, 'v) dict \<Rightarrow> 'k \<Rightarrow> ('k, 'v) dict" where
  "dict_del d k = AList.delete k d"

definition dict_has :: "('k, 'v) dict \<Rightarrow> 'k \<Rightarrow> bool" where
  "dict_has d k = (k \<in> set (map fst d))"

definition dict_values :: "('k, 'v) dict \<Rightarrow> 'v list" where
  "dict_values d = map snd d"

text \<open>
  A task record is the dict written by \<open>_run_analysis\<close>. \<open>start_time = None\<close> and
  \<open>end_time = None\<close> stand for an absent key; \<open>result = None\<close> and \<open>error = None\<close>
  for the Python value \<open>None\<close>. The result of the analysis collaborator
  (\<open>result.to_dict()\<close>) is opaque: the type variable \<open>'r\<close>.
\<close>

record 'r task =
  task_id :: string
  code :: string
  status :: string
  start_time :: "string option"
  end_time :: "string option"
  result :: "'r option"
  error :: "string option"

text \<open>
  The JSON file of a service: absent, unreadable (\<open>json.load\<close> raises), or a document
  holding a dict. Serialisation itself (\<open>json.dump\<close> followed by \<open>json.load\<close>) is taken
  to reproduce the dict, and reading and writing the file to succeed.
\<close>

datatype 'a json_file = Missing | Corrupt | Doc 'a

text \<open>
  The state of \<open>AnalysisService\<close>: the table \<open>_tasks\<close>, the file \<open>data/tasks.json\<close>, the
  jobs handed to the thread pool so far, in the order of their submission, and the
  number of detached threads started by \<open>list_tasks\<close> that have not run their save yet.
  A worker of the pool may start a job at any moment after it was handed over, also
  before \<open>submit_analysis\<close> has returned to its caller.
\<close>

record 'r analysis_service =
  tasks :: "(string, 'r task) dict"
  task_file :: "(string, 'r task) dict json_file"
  queue :: "(string \<times> string) list"
  bg_saves :: nat

section \<open>Eviction of task records\<close>

text \<open>
  Time is the number of microseconds on the local clock, the resolution of Python's
  \<open>datetime\<close>; every call of \<open>datetime.now()\<close> is an argument of the function that makes
  it. \<open>datetime.fromisoformat\<close> is an argument \<open>P\<close> too: \<open>P s = None\<close> where it raises
  \<open>ValueError\<close>, \<open>P s = Some t\<close> where it returns the naive timestamp \<open>t\<close>, the kind
  \<open>datetime.now().isoformat()\<close> writes. A \<open>start_time\<close> that is not a string, or a string
  with a UTC offset (for which the subtraction from the naive \<open>now\<close> raises
  \<open>TypeError\<close>), is not among the values of this model. The test
  \<open>(now - start_time).total_seconds() <= 3 * 24 * 3600\<close> compares a number of
  microseconds divided by \<open>10^6\<close> with 259200, which is \<open>now - t \<le> RETENTION_US\<close>.
\<close>

type_synonym parser = "string \<Rightarrow> int option"

definition RETENTION_US :: int where
  "RETENTION_US = 3 * 24 * 3600 * 1000000"

text \<open>The loop of \<open>_load_tasks\<close>, with its accumulators \<open>valid_tasks\<close> and \<open>has_changes\<close>.\<close>

fun load_loop :: "parser \<Rightarrow> int \<Rightarrow> (string, 'r task) dict \<Rightarrow> (string, 'r task) dict \<Rightarrow> bool
    \<Rightarrow> (string, 'r task) dict \<times> bool" where
  "load_loop P now [] valid_tasks has_changes = (valid_tasks, has_changes)"
| "load_loop P now ((tid, t) # rest) valid_tasks has_changes =
     (case start_time t of
        None \<Rightarrow> load_loop P now rest valid_tasks has_changes
      | Some s \<Rightarrow>
          if s = [] then load_loop P now rest valid_tasks has_changes
          else (case P s of
                  None \<Rightarrow> load_loop P now rest valid_tasks has_changes
                | Some st \<Rightarrow>
                    if now - st \<le> RETENTION_US
                    then load_loop P now rest (dict_set valid_tasks tid t) has_changes
                    else load_loop P now rest valid_tasks True))"

text \<open>The loop of \<open>_save_tasks\<close>, with its accumulator \<open>tasks_to_save\<close>.\<close>

fun save_loop :: "parser \<Rightarrow> int \<Rightarrow> (string, 'r task) dict \<Rightarrow> (string, 'r task) dict
    \<Rightarrow> (string, 'r task) dict" where
  "save_loop P now [] tasks_to_save = tasks_to_save"
| "save_loop P now ((tid, t) # rest) tasks_to_save =
     (case start_time t of
        None \<Rightarrow> save_loop P now rest tasks_to_save
      | Some s \<Rightarrow>
          if s = [] then save_loop P now rest tasks_to_save
          else (case P s of
                  None \<Rightarrow> save_loop P now rest tasks_to_save
                | Some st \<Rightarrow>
                    if now - st \<le> RETENTION_US
                    then save_loop P now rest (dict_set tasks_to_save tid t)
                    else save_loop P now rest tasks_to_save))"

text \<open>The first loop of a cleaning pass of \<open>list_tasks\<close>: the ids to delete.\<close>

fun expired_loop :: "parser \<Rightarrow> int \<Rightarrow> (string, 'r task) dict \<Rightarrow> string list" where
  "expired_loop P now [] = []"
| "expired_loop P now ((tid, t) # rest) =
     (case start_time t of
        None \<Rightarrow> expired_loop P now rest
      | Some s \<Rightarrow>
          if s = [] then expired_loop P now rest
          else (case P s of
                  None \<Rightarrow> expired_loop P now rest
                | Some st \<Rightarrow>
                    if now - st > RETENTION_US
                    then tid # expired_loop P now rest
                    else expired_loop P now rest))"

text \<open>
  The three traversals in one vocabulary. \<open>start_instant\<close> is the start of a record that has
  a usable \<open>start_time\<close>; \<open>is_valid\<close> is what \<open>_load_tasks\<close> and \<open>_save_tasks\<close> keep,
  \<open>is_expired\<close> what \<open>list_tasks\<close> deletes. A record with no usable \<open>start_time\<close> is
  neither.
\<close>

definition start_instant :: "parser \<Rightarrow> 'r task \<Rightarrow> int option" where
  "start_instant P t =
     (case start_time t of None \<Rightarrow> None | Some s \<Rightarrow> if s = [] then None else P s)"

definition is_valid :: "parser \<Rightarrow> int \<Rightarrow> 'r task \<Rightarrow> bool" where
  "is_valid P now t = (case start_instant P t of None \<Rightarrow> False | Some st \<Rightarrow> now - st \<le> RETENTION_US)"

definition is_expired :: "parser \<Rightarrow> int \<Rightarrow> 'r task \<Rightarrow> bool" where
  "is_expired P now t = (case start_instant P t of None \<Rightarrow> False | Some st \<Rightarrow> now - st > RETENTION_US)"

section \<open>AnalysisService\<close>

text \<open>\<open>_save_tasks\<close>: the table is filtered once more and the file rewritten whole.\<close>

definition save_tasks :: "parser \<Rightarrow> int \<Rightarrow> 'r analysis_service \<Rightarrow> 'r analysis_service" where
  "save_tasks P now sv = sv\<lparr>task_file := Doc (save_loop P now (tasks sv) [])\<rparr>"

text \<open>
  \<open>_load_tasks\<close>: nothing happens without a file, and an exception of \<open>json.load\<close> is
  caught and logged. \<open>now\<close> is the clock read by the load, \<open>save_now\<close> the one read by
  the save it may trigger.
\<close>

definition load_tasks :: "parser \<Rightarrow> int \<Rightarrow> int \<Rightarrow> 'r analysis_service \<Rightarrow> 'r analysis_service" where
  "load_tasks P now save_now sv =
     (case task_file sv of
        Missing \<Rightarrow> sv
      | Corrupt \<Rightarrow> sv
      | Doc data \<Rightarrow>
          (case load_loop P now data [] False of
             (valid_tasks, has_changes) \<Rightarrow>
               let sv' = sv\<lparr>tasks := valid_tasks\<rparr>
               in if has_changes then save_tasks P save_now sv' else sv'))"

text \<open>A service object before its first load, beside a given file.\<close>

definition fresh_service :: "(string, 'r task) dict json_file \<Rightarrow> 'r analysis_service" where
  "fresh_service f = \<lparr>tasks = [], task_file = f, queue = [], bg_saves = 0\<rparr>"

text \<open>\<open>get_task_status\<close> returns the record and leaves the service as it is.\<close>

definition get_task_status :: "'r analysis_service \<Rightarrow> string \<Rightarrow> 'r task option \<times> 'r analysis_service" where
  "get_task_status sv tid = (dict_get (tasks sv) tid, sv)"

text \<open>\<open>delete_task\<close>; \<open>now\<close> is the clock read by its save.\<close>

definition delete_task :: "parser \<Rightarrow> int \<Rightarrow> 'r analysis_service \<Rightarrow> string \<Rightarrow> bool \<times> 'r analysis_service" where
  "delete_task P now sv tid =
     (if dict_has (tasks sv) tid
      then (True, save_tasks P now (sv\<lparr>tasks := dict_del (tasks sv) tid\<rparr>))
      else (False, sv))"

text \<open>
  One cleaning pass of \<open>list_tasks\<close> (the source runs the pass twice): the expired ids
  are collected, deleted from the table, and if there were any a detached thread is
  started for \<open>_save_tasks\<close>. That thread needs the lock the caller holds, so the file
  is not written inside \<open>list_tasks\<close>. \<open>del\<close> only meets ids collected from the table
  itself.
\<close>

definition clean_pass :: "parser \<Rightarrow> int \<Rightarrow> 'r analysis_service \<Rightarrow> 'r analysis_service" where
  "clean_pass P now sv =
     (let expired_ids = expired_loop P now (tasks sv);
          sv' = sv\<lparr>tasks := foldl dict_del (tasks sv) expired_ids\<rparr>
      in if expired_ids \<noteq> [] then sv'\<lparr>bg_saves := bg_saves sv' + 1\<rparr> else sv')"


text \<open>
  \<open>tasks.sort(key=lambda x: x.get('start_time', ''), reverse=True)\<close>: Python reverses
  the list, sorts it stably in ascending order and reverses the result. Strings compare
  lexicographically.
\<close>

definition start_key :: "'r task \<Rightarrow> string" where
  "start_key t = (case start_time t of None \<Rightarrow> [] | Some s \<Rightarrow> s)"

definition py_sort_reverse :: "('a \<Rightarrow> string) \<Rightarrow> 'a list \<Rightarrow> 'a list" where
  "py_sort_reverse key xs = rev (sort_key key (rev xs))"

text \<open>The slice \<open>xs[:limit]\<close>: a negative \<open>limit\<close> counts from the end.\<close>

definition py_slice_to :: "'a list \<Rightarrow> int \<Rightarrow> 'a list" where
  "py_slice_to xs limit =
     (if 0 \<le> limit then take (nat limit) xs else take (length xs - nat (- limit)) xs)"

definition list_tasks :: "parser \<Rightarrow> int \<Rightarrow> int \<Rightarrow> int \<Rightarrow> 'r analysis_service
    \<Rightarrow> 'r task list \<times> 'r analysis_service" where
  "list_tasks P now1 now2 limit sv =
     (let sv1 = clean_pass P now1 sv;
          sv2 = clean_pass P now2 sv1
      in (py_slice_to (py_sort_reverse start_key (dict_values (tasks sv2))) limit, sv2))"

text \<open>
  \<open>submit_analysis\<close>: \<open>stamp\<close> is \<open>datetime.now().strftime('%Y%m%d_%H%M%S_%f')\<close>. The
  job goes to the thread pool and the reply is returned (its constant message text is
  left out).
\<close>

record submit_reply =
  success :: bool
  reply_code :: string
  reply_task_id :: string

definition submit_analysis :: "string \<Rightarrow> string \<Rightarrow> 'r analysis_service
    \<Rightarrow> submit_reply \<times> 'r analysis_service" where
  "submit_analysis stamp c sv =
     (let tid = c @ ''_'' @ stamp
      in (\<lparr>success = True, reply_code = c, reply_task_id = tid\<rparr>,
          sv\<lparr>queue := queue sv @ [(c, tid)]\<rparr>))"

text \<open>
  \<open>_run_analysis\<close>, in the two parts the call of the collaborator separates. The first
  writes the running record and saves twice; \<open>start_iso\<close> is
  \<open>datetime.now().isoformat()\<close>, \<open>s1\<close> and \<open>s2\<close> are the clocks of the saves.
\<close>

definition run_analysis_begin :: "parser \<Rightarrow> string \<Rightarrow> string \<Rightarrow> string \<Rightarrow> int \<Rightarrow> int
    \<Rightarrow> 'r analysis_service \<Rightarrow> 'r analysis_service" where
  "run_analysis_begin P c tid start_iso s1 s2 sv =
     save_tasks P s2 (save_tasks P s1
       (sv\<lparr>tasks := dict_set (tasks sv) tid
          \<lparr>task_id = tid, code = c, status = ''running'', start_time = Some start_iso,
           end_time = None, result = None, error = None\<rparr>\<rparr>))"

text \<open>
  What \<open>pipeline.process_single_stock\<close> does: it raises (\<open>Raised\<close>, with \<open>str(e)\<close>),
  returns a falsy value, or returns a result. A result is given by its \<open>to_dict()\<close> and
  by what reading its attribute \<open>operation_advice\<close> does, which the log line after the
  update does inside \<open>try\<close>: the read succeeds or raises (with \<open>str(e)\<close>). An exception
  of the imports, of \<open>get_config\<close> or of \<open>to_dict\<close> is \<open>Raised\<close> as well: all happen
  before the record is touched.
\<close>

datatype attr_read = Read | ReadRaises string

datatype 'r outcome = Raised string | Falsy | Truthy 'r attr_read

datatype py_error = KeyError string

datatype 'r run_reply = Success string 'r | Failure string string

text \<open>The fixed message of the empty result, as the bytes of its UTF-8 encoding.\<close>

definition EMPTY_RESULT_MSG :: string where
  "EMPTY_RESULT_MSG = map char_of
     [229, 136, 134, 230, 158, 144, 232, 191, 148, 229, 155, 158, 231, 169, 186, 231, 187,
      147, 230, 158, 156 :: nat]"

text \<open>
  \<open>self._tasks[task_id].update(...)\<close> followed by the two saves. The subscript raises
  \<open>KeyError\<close> when the record is gone (\<open>delete_task\<close> may run while the collaborator
  works).
\<close>

definition update_task :: "parser \<Rightarrow> string \<Rightarrow> ('r task \<Rightarrow> 'r task) \<Rightarrow> int \<Rightarrow> int
    \<Rightarrow> 'r analysis_service \<Rightarrow> py_error + 'r analysis_service" where
  "update_task P tid f s1 s2 sv =
     (case dict_get (tasks sv) tid of
        None \<Rightarrow> Inl (KeyError tid)
      | Some t \<Rightarrow> Inr (save_tasks P s2 (save_tasks P s1 (sv\<lparr>tasks := dict_set (tasks sv) tid (f t)\<rparr>))))"

text \<open>
  The handler \<open>except Exception as e\<close> of \<open>_run_analysis\<close>: \<open>error_msg\<close> is \<open>str(e)\<close>,
  \<open>h_iso\<close> the \<open>datetime.now().isoformat()\<close> of the handler, \<open>h1\<close> and \<open>h2\<close> the clocks
  of its saves. Its update is not guarded: a \<open>KeyError\<close> there leaves the worker. The
  update changes \<open>status\<close>, \<open>end_time\<close> and \<open>error\<close> only.
\<close>

definition record_failure :: "parser \<Rightarrow> string \<Rightarrow> string \<Rightarrow> string \<Rightarrow> int \<Rightarrow> int
    \<Rightarrow> 'r analysis_service \<Rightarrow> py_error + ('r run_reply \<times> 'r analysis_service)" where
  "record_failure P tid error_msg h_iso h1 h2 sv =
     (case update_task P tid
             (\<lambda>t. t\<lparr>status := ''failed'', end_time := Some h_iso, error := Some error_msg\<rparr>)
             h1 h2 sv of
        Inl e \<Rightarrow> Inl e
      | Inr sv' \<Rightarrow> Inr (Failure tid error_msg, sv'))"

text \<open>
  The second part of \<open>_run_analysis\<close>, from the return of the collaborator on;
  \<open>end_iso\<close>, \<open>s3\<close> and \<open>s4\<close> are the clocks of the update inside \<open>try\<close> and of its saves.
  A \<open>KeyError\<close> of that update reaches the handler, whose own update raises it again on
  the unchanged table: that one leaves the worker. An exception of the log line after
  the completed update reaches the handler too, which then works on the completed
  record.
\<close>

definition run_analysis_finish :: "parser \<Rightarrow> string \<Rightarrow> 'r outcome \<Rightarrow> string \<Rightarrow> int \<Rightarrow> int
    \<Rightarrow> string \<Rightarrow> int \<Rightarrow> int
    \<Rightarrow> 'r analysis_service \<Rightarrow> py_error + ('r run_reply \<times> 'r analysis_service)" where
  "run_analysis_finish P tid oc end_iso s3 s4 h_iso h1 h2 sv =
     (case oc of
        Truthy r advice \<Rightarrow>
          (case update_task P tid
                  (\<lambda>t. t\<lparr>status := ''completed'', end_time := Some end_iso, result := Some r\<rparr>)
                  s3 s4 sv of
             Inl e \<Rightarrow> Inl e
           | Inr sv' \<Rightarrow>
               (case advice of
                  Read \<Rightarrow> Inr (Success tid r, sv')
                | ReadRaises error_msg \<Rightarrow> record_failure P tid error_msg h_iso h1 h2 sv'))
      | Falsy \<Rightarrow>
          (case update_task P tid
                  (\<lambda>t. t\<lparr>status := ''failed'', end_time := Some end_iso,
                          error := Some EMPTY_RESULT_MSG\<rparr>)
                  s3 s4 sv of
             Inl e \<Rightarrow> Inl e
           | Inr sv' \<Rightarrow> Inr (Failure tid EMPTY_RESULT_MSG, sv'))
      | Raised error_msg \<Rightarrow> record_failure P tid error_msg h_iso h1 h2 sv)"

text \<open>\<open>_run_analysis\<close> as one worker runs it when nothing else touches the service.\<close>

definition run_analysis :: "parser \<Rightarrow> string \<Rightarrow> string \<Rightarrow> string \<Rightarrow> int \<Rightarrow> int \<Rightarrow> 'r outcome
    \<Rightarrow> string \<Rightarrow> int \<Rightarrow> int \<Rightarrow> string \<Rightarrow> int \<Rightarrow> int \<Rightarrow> 'r analysis_service
    \<Rightarrow> py_error + ('r run_reply \<times> 'r analysis_service)" where
  "run_analysis P c tid start_iso s1 s2 oc end_iso s3 s4 h_iso h1 h2 sv =
     run_analysis_finish P tid oc end_iso s3 s4 h_iso h1 h2
       (run_analysis_begin P c tid start_iso s1 s2 sv)"


text \<open>The invariant of a task record (section 3 of the specification).\<close>

definition task_inv :: "'r task \<Rightarrow> bool" where
  "task_inv t \<longleftrightarrow>
     ((end_time t \<noteq> None) = (status t = ''completed'' \<or> status t = ''failed'')) \<and>
     (result t \<noteq> None \<longrightarrow> status t = ''completed'') \<and>
     (error t \<noteq> None \<longrightarrow> status t = ''failed'')"

section \<open>MarketService\<close>

text \<open>
  A review record; an absent key is \<open>None\<close>. The overview summary is opaque (\<open>'o\<close>). The
  key \<open>error\<close> of the source is the field \<open>review_error\<close>.
\<close>

record 'o review =
  date :: string
  report :: "string option"
  generated_at :: string
  overview :: "'o option"
  review_error :: "string option"

text \<open>
  The state of \<open>MarketService\<close>: the table \<open>_reviews\<close>, the file
  \<open>data/market_reviews.json\<close>, and the number of times the generation (the \<open>try\<close> block
  of \<open>get_today_review\<close>) has been run, which is what an observer of the collaborator
  counts.
\<close>

record 'o market_service =
  reviews :: "(string, 'o review) dict"
  review_file :: "(string, 'o review) dict json_file"
  gen_calls :: nat

definition DAY_US :: int where
  "DAY_US = 24 * 3600 * 1000000"

text \<open>
  The loop of \<open>_load_reviews\<close>. \<open>D\<close> is \<open>datetime.strptime(_, '%Y-%m-%d')\<close>: \<open>None\<close> where
  it raises \<open>ValueError\<close>, else midnight of that date. The attribute \<open>days\<close> of a
  \<open>timedelta\<close> is the floor of the difference in days.
\<close>

fun review_loop :: "parser \<Rightarrow> int \<Rightarrow> (string, 'o review) dict \<Rightarrow> (string, 'o review) dict
    \<Rightarrow> (string, 'o review) dict" where
  "review_loop D now [] valid_reviews = valid_reviews"
| "review_loop D now ((date_str, r) # rest) valid_reviews =
     (case D date_str of
        None \<Rightarrow> review_loop D now rest valid_reviews
      | Some review_date \<Rightarrow>
          if (now - review_date) div DAY_US \<le> 7
          then review_loop D now rest (dict_set valid_reviews date_str r)
          else review_loop D now rest valid_reviews)"

text \<open>What the loop keeps: a date that parses and lies at most seven days back.\<close>

definition review_valid :: "parser \<Rightarrow> int \<Rightarrow> string \<Rightarrow> bool" where
  "review_valid D now date_str =
     (case D date_str of None \<Rightarrow> False | Some review_date \<Rightarrow> (now - review_date) div DAY_US \<le> 7)"

definition load_reviews :: "parser \<Rightarrow> int \<Rightarrow> 'o market_service \<Rightarrow> 'o market_service" where
  "load_reviews D now ms =
     (case review_file ms of
        Missing \<Rightarrow> ms
      | Corrupt \<Rightarrow> ms
      | Doc data \<Rightarrow> ms\<lparr>reviews := review_loop D now data []\<rparr>)"

definition save_reviews :: "'o market_service \<Rightarrow> 'o market_service" where
  "save_reviews ms = ms\<lparr>review_file := Doc (reviews ms)\<rparr>"

text \<open>
  What the generation does when it is run: it raises somewhere (\<open>GenRaised\<close>, with
  \<open>str(e)\<close>) or yields the report text and the overview.
\<close>

datatype 'o generation = GenRaised string | GenOk string 'o

text \<open>
  \<open>get_today_review\<close>: \<open>today\<close> is \<open>datetime.now().strftime('%Y-%m-%d')\<close>, \<open>gen\<close> what
  the generation does if this call runs it, \<open>now_iso\<close> the \<open>generated_at\<close> stamp.
\<close>

definition get_today_review :: "string \<Rightarrow> bool \<Rightarrow> 'o generation \<Rightarrow> string \<Rightarrow> 'o market_service
    \<Rightarrow> 'o review \<times> 'o market_service" where
  "get_today_review today force_refresh gen now_iso ms =
     (case (if force_refresh then None else dict_get (reviews ms) today) of
        Some cached \<Rightarrow> (cached, ms)
      | None \<Rightarrow>
          let ms1 = ms\<lparr>gen_calls := gen_calls ms + 1\<rparr>
          in (case gen of
                GenOk rep ov \<Rightarrow>
                  let review_data = \<lparr>date = today, report = Some rep, generated_at = now_iso,
                                     overview = Some ov, review_error = None\<rparr>
                  in (review_data,
                      save_reviews (ms1\<lparr>reviews := dict_set (reviews ms1) today review_data\<rparr>))
              | GenRaised e \<Rightarrow>
                  (\<lparr>date = today, report = None, generated_at = now_iso,
                    overview = None, review_error = Some e\<rparr>, ms1)))"

definition get_review_by_date :: "'o market_service \<Rightarrow> string \<Rightarrow> 'o review option \<times> 'o market_service" where
  "get_review_by_date ms d = (dict_get (reviews ms) d, ms)"


section \<open>ConfigService\<close>

text \<open>
  A Python string is a list of code points; the model has the code points below 256, one
  \<open>char\<close> each. \<open>is_space\<close> is \<open>str.isspace\<close> on them, which is also what \<open>\s\<close> matches
  and what \<open>strip\<close> removes; \<open>is_linebreak\<close> is the set of line boundaries of
  \<open>str.splitlines\<close>.
\<close>

definition LF :: char where "LF = CHR 0x0A"
definition CR :: char where "CR = CHR 0x0D"

definition is_space :: "char \<Rightarrow> bool" where
  "is_space c \<longleftrightarrow> c \<in> {CHR 0x09, CHR 0x0A, CHR 0x0B, CHR 0x0C, CHR 0x0D, CHR 0x1C, CHR 0x1D,
                       CHR 0x1E, CHR 0x1F, CHR 0x20, CHR 0x85, CHR 0xA0}"

definition is_linebreak :: "char \<Rightarrow> bool" where
  "is_linebreak c \<longleftrightarrow> c \<in> {CHR 0x0A, CHR 0x0B, CHR 0x0C, CHR 0x0D, CHR 0x1C, CHR 0x1D,
                           CHR 0x1E, CHR 0x85}"

definition strip :: "string \<Rightarrow> string" where
  "strip s = rev (dropWhile is_space (rev (dropWhile is_space s)))"

text \<open>\<open>s.split(sep)\<close> for a separator of one character: never an empty list.\<close>

fun split_on :: "char \<Rightarrow> string \<Rightarrow> string list" where
  "split_on sep [] = [ [] ]"
| "split_on sep (c # cs) =
     (if c = sep then [] # split_on sep cs
      else (case split_on sep cs of [] \<Rightarrow> [ [c] ] | p # ps \<Rightarrow> (c # p) # ps))"

fun join :: "string \<Rightarrow> string list \<Rightarrow> string" where
  "join sep [] = []"
| "join sep [p] = p"
| "join sep (p # q # ps) = p @ sep @ join sep (q # ps)"

text \<open>
  \<open>str.splitlines()\<close>: \<open>\r\n\<close> is one boundary, and a boundary at the very end opens no
  further line.
\<close>

fun splitlines :: "string \<Rightarrow> string list" where
  "splitlines [] = []"
| "splitlines [c] = (if is_linebreak c then [ [] ] else [ [c] ])"
| "splitlines (c # d # cs) =
     (if c = CR \<and> d = LF then [] # splitlines cs
      else if is_linebreak c then [] # splitlines (d # cs)
      else (case splitlines (d # cs) of [] \<Rightarrow> [ [c] ] | l # ls \<Rightarrow> (c # l) # ls))"

text \<open>
  The match of \<open>_STOCK_LIST_RE\<close>,
  \<^verbatim>\<open>^(?P<prefix>\s*STOCK_LIST\s*=\s*)(?P<value>.*?)(?P<suffix>\s*)$\<close>, against one line
  of \<open>splitlines\<close> (which holds no \<open>\n\<close>, so that \<open>.\<close> matches every character and
  \<open>$\<close> the end only). Each \<open>\s*\<close> of the prefix takes all the white space there is,
  since the character that must follow is none; the lazy \<open>value\<close> is the rest without
  its trailing white space, which is the \<open>suffix\<close>. The result is the three groups.
\<close>

definition stock_list_match :: "string \<Rightarrow> (string \<times> string \<times> string) option" where
  "stock_list_match line =
     (let p1 = takeWhile is_space line; r1 = dropWhile is_space line
      in if take 10 r1 \<noteq> ''STOCK_LIST'' then None
         else
           let r2 = drop 10 r1; p2 = takeWhile is_space r2
           in (case dropWhile is_space r2 of
                 [] \<Rightarrow> None
               | c # r4 \<Rightarrow>
                   if c \<noteq> CHR ''='' then None
                   else
                     let p3 = takeWhile is_space r4; r5 = dropWhile is_space r4;
                         v = rev (dropWhile is_space (rev r5))
                     in Some (p1 @ ''STOCK_LIST'' @ p2 @ ''='' @ p3, v, drop (length v) r5)))"

text \<open>The quote test and the slice \<open>raw[1:-1]\<close> of \<open>_extract_stock_list\<close>.\<close>

definition quoted :: "string \<Rightarrow> bool" where
  "quoted raw \<longleftrightarrow>
     raw \<noteq> [] \<and> ((hd raw = CHR 0x22 \<and> last raw = CHR 0x22) \<or> (hd raw = CHR 0x27 \<and> last raw = CHR 0x27))"

fun extract_lines :: "string list \<Rightarrow> string" where
  "extract_lines [] = []"
| "extract_lines (line # rest) =
     (case stock_list_match line of
        None \<Rightarrow> extract_lines rest
      | Some (p, v, s) \<Rightarrow>
          let raw = strip v in if quoted raw then butlast (tl raw) else raw)"

definition extract_stock_list :: "string \<Rightarrow> string" where
  "extract_stock_list env_text = extract_lines (splitlines env_text)"

text \<open>\<open>_normalize_stock_list\<close>: its list \<open>parts\<close>, and the result.\<close>

definition stock_parts :: "string \<Rightarrow> string list" where
  "stock_parts v = filter (\<lambda>p. p \<noteq> [])
       (map strip (split_on (CHR '','') (map (\<lambda>c. if c = LF then CHR '','' else c) v)))"

definition normalize_stock_list :: "string \<Rightarrow> string" where
  "normalize_stock_list v = join '','' (stock_parts v)"

text \<open>The loop of \<open>_update_stock_list\<close>, with \<open>out_lines\<close> and \<open>replaced\<close>.\<close>

fun update_loop :: "string \<Rightarrow> string list \<Rightarrow> string list \<Rightarrow> bool \<Rightarrow> string list \<times> bool" where
  "update_loop new_value [] out_lines replaced = (out_lines, replaced)"
| "update_loop new_value (line # rest) out_lines replaced =
     (case stock_list_match line of
        None \<Rightarrow> update_loop new_value rest (out_lines @ [line]) replaced
      | Some (p, v, s) \<Rightarrow> update_loop new_value rest (out_lines @ [p @ new_value @ s]) True)"

definition update_stock_list :: "string \<Rightarrow> string \<Rightarrow> string" where
  "update_stock_list env_text new_value =
     (case update_loop new_value (splitlines env_text) [] False of
        (out_lines, replaced) \<Rightarrow>
          let out_lines' =
                (if replaced then out_lines
                 else (if out_lines \<noteq> [] \<and> strip (last out_lines) \<noteq> [] then out_lines @ [ [] ]
                       else out_lines) @ [''STOCK_LIST='' @ new_value]);
              trailing_newline = (if env_text \<noteq> [] then last env_text = LF else True)
          in join [LF] out_lines' @ (if trailing_newline then [LF] else []))"

text \<open>
  The file \<open>.env\<close>: \<open>None\<close> when it does not exist. It is opened in text mode, where
  reading turns \<open>\r\n\<close> and \<open>\r\<close> into \<open>\n\<close> and writing (on a system whose line
  separator is \<open>\n\<close>) stores the text as it is.
\<close>

record config_service =
  env_file :: "string option"

fun universal_newlines :: "string \<Rightarrow> string" where
  "universal_newlines [] = []"
| "universal_newlines [c] = (if c = CR then [LF] else [c])"
| "universal_newlines (c # d # cs) =
     (if c = CR \<and> d = LF then LF # universal_newlines cs
      else if c = CR then LF # universal_newlines (d # cs)
      else c # universal_newlines (d # cs))"

definition read_env_text :: "config_service \<Rightarrow> string" where
  "read_env_text cs = (case env_file cs of None \<Rightarrow> [] | Some text \<Rightarrow> universal_newlines text)"

definition write_env_text :: "config_service \<Rightarrow> string \<Rightarrow> config_service" where
  "write_env_text cs text = cs\<lparr>env_file := Some text\<rparr>"

definition get_stock_list :: "config_service \<Rightarrow> string" where
  "get_stock_list cs = extract_stock_list (read_env_text cs)"

definition set_stock_list :: "config_service \<Rightarrow> string \<Rightarrow> string \<times> config_service" where
  "set_stock_list cs stock_list =
     (let env_text = read_env_text cs;
          normalized = normalize_stock_list stock_list;
          updated = update_stock_list env_text normalized
      in (normalized, write_env_text cs updated))"


section \<open>Sample data\<close>

text \<open>
  Values for the examples below: \<open>datetime.fromisoformat\<close> and \<open>datetime.strptime\<close> on a
  few strings (the clock counts from the first of January 2024, and every other string
  is refused), a finished task record with a given \<open>start_time\<close>, and services that hold
  nothing yet.
\<close>

definition sample_fromisoformat :: parser where
  "sample_fromisoformat s =
     (if s = ''2024-01-01T00:00:00'' then Some 0
      else if s = ''2024-01-04T00:00:00'' then Some (3 * DAY_US)
      else if s = ''2024-01-05T00:00:00'' then Some (4 * DAY_US)
      else None)"

definition sample_strptime :: parser where
  "sample_strptime s =
     (if s = ''2024-01-01'' then Some 0
      else if s = ''2024-01-10'' then Some (9 * DAY_US)
      else None)"

definition sample_task :: "string \<Rightarrow> string option \<Rightarrow> unit task" where
  "sample_task tid st =
     \<lparr>task_id = tid, code = ''600519'', status = ''completed'', start_time = st,
      end_time = Some ''2024-01-05T00:05:00'', result = Some (), error = None\<rparr>"

definition sample_service :: "(string, unit task) dict \<Rightarrow> unit analysis_service" where
  "sample_service d = \<lparr>tasks = d, task_file = Missing, queue = [], bg_saves = 0\<rparr>"

definition empty_market :: "unit market_service" where
  "empty_market = \<lparr>reviews = [], review_file = Missing, gen_calls = 0\<rparr>"

definition sample_review :: "string \<Rightarrow> unit review" where
  "sample_review d =
     \<lparr>date = d, report = Some ''report'', generated_at = d @ ''T18:00:00'',
      overview = Some (), review_error = None\<rparr>"


section \<open>Dicts and the three eviction traversals\<close>

lemma dict_get_set: "dict_get (dict_set d k v) k' = (if k' = k then Some v else dict_get d k')"
  by (simp add: dict_get_def dict_set_def update_conv')

lemma dict_get_del: "dict_get (dict_del d k) k' = (if k' = k then None else dict_get d k')"
  by (simp add: dict_get_def dict_del_def delete_conv')

lemma dict_has_get: "dict_has d k = (dict_get d k \<noteq> None)"
  by (simp add: dict_has_def dict_get_def map_of_eq_None_iff)

lemma tasks_save_tasks: "tasks (save_tasks P now sv) = tasks sv"
  by (simp add: save_tasks_def)

lemma task_file_save_tasks: "task_file (save_tasks P now sv) = Doc (save_loop P now (tasks sv) [])"
  by (simp add: save_tasks_def)


lemma dict_set_fresh: "k \<notin> fst ` set d \<Longrightarrow> dict_set d k v = d @ [(k, v)]"
  by (induction d) (auto simp: dict_set_def)

lemma load_loop_fst:
  "distinct (map fst data) \<Longrightarrow> fst ` set data \<inter> fst ` set acc = {} \<Longrightarrow>
   fst (load_loop P now data acc hc) = acc @ filter (\<lambda>(k, t). is_valid P now t) data"
proof (induction data arbitrary: acc hc)
  case Nil
  then show ?case by simp
next
  case (Cons a data)
  obtain k t where a: "a = (k, t)" by (cases a)
  from Cons.prems have d: "distinct (map fst data)" and k1: "k \<notin> fst ` set data"
    and k2: "k \<notin> fst ` set acc" and dj: "fst ` set data \<inter> fst ` set acc = {}"
    by (auto simp: a)
  have dj': "fst ` set data \<inter> fst ` set (acc @ [(k, t)]) = {}"
    using dj k1 by auto
  show ?case
    using Cons.IH[OF d dj] Cons.IH[OF d dj'] k2
    by (simp add: a is_valid_def start_instant_def dict_set_fresh split: option.splits)
qed

lemma load_loop_snd:
  "snd (load_loop P now data acc hc) = (hc \<or> (\<exists>(k, t) \<in> set data. is_expired P now t))"
proof (induction data arbitrary: acc hc)
  case Nil
  then show ?case by simp
next
  case (Cons a data)
  obtain k t where a: "a = (k, t)" by (cases a)
  show ?case
    by (simp add: a Cons.IH is_expired_def start_instant_def split: option.splits)
qed

lemma save_loop_eq:
  "distinct (map fst data) \<Longrightarrow> fst ` set data \<inter> fst ` set acc = {} \<Longrightarrow>
   save_loop P now data acc = acc @ filter (\<lambda>(k, t). is_valid P now t) data"
proof (induction data arbitrary: acc)
  case Nil
  then show ?case by simp
next
  case (Cons a data)
  obtain k t where a: "a = (k, t)" by (cases a)
  from Cons.prems have d: "distinct (map fst data)" and k1: "k \<notin> fst ` set data"
    and k2: "k \<notin> fst ` set acc" and dj: "fst ` set data \<inter> fst ` set acc = {}"
    by (auto simp: a)
  have dj': "fst ` set data \<inter> fst ` set (acc @ [(k, t)]) = {}"
    using dj k1 by auto
  show ?case
    using Cons.IH[OF d dj] Cons.IH[OF d dj'] k2
    by (simp add: a is_valid_def start_instant_def dict_set_fresh split: option.splits)
qed

lemma expired_loop_eq:
  "expired_loop P now d = map fst (filter (\<lambda>(k, t). is_expired P now t) d)"
proof (induction d)
  case Nil
  then show ?case by simp
next
  case (Cons a d)
  obtain k t where a: "a = (k, t)" by (cases a)
  have "expired_loop P now ((k, t) # d) =
          (if is_expired P now t then k # expired_loop P now d else expired_loop P now d)"
    by (simp add: is_expired_def start_instant_def split: option.splits)
  then show ?case by (simp add: a Cons.IH)
qed

lemma dict_del_filter: "dict_del d k = filter (\<lambda>(k', t). k' \<noteq> k) d"
  by (induction d) (auto simp: dict_del_def)

lemma fold_dict_del:
  "foldl dict_del d ks = filter (\<lambda>(k, t). k \<notin> set ks) d"
proof (induction ks arbitrary: d)
  case Nil then show ?case by simp
next
  case (Cons k ks)
  have "foldl dict_del d (k # ks) = filter (\<lambda>(k', t). k' \<notin> set ks) (dict_del d k)"
    by (simp add: Cons.IH)
  also have "\<dots> = filter (\<lambda>(k', t). k' \<notin> set (k # ks)) d"
    by (auto simp: dict_del_filter case_prod_unfold intro: filter_cong)
  finally show ?case .
qed

lemma delete_expired:
  "distinct (map fst d) \<Longrightarrow>
   filter (\<lambda>(k, t). k \<notin> set (map fst (filter (\<lambda>(k, t). Q t) d))) d = filter (\<lambda>(k, t). \<not> Q t) d"
proof -
  assume dist: "distinct (map fst d)"
  have "\<And>k t. (k, t) \<in> set d \<Longrightarrow> (k \<in> fst ` {x \<in> set d. Q (snd x)}) = Q t"
  proof -
    fix k t assume kt: "(k, t) \<in> set d"
    show "(k \<in> fst ` {x \<in> set d. Q (snd x)}) = Q t"
    proof
      assume "k \<in> fst ` {x \<in> set d. Q (snd x)}"
      then obtain t' where "(k, t') \<in> set d" "Q t'" by auto
      with dist kt show "Q t" by (metis eq_key_imp_eq_value)
    next
      assume "Q t" with kt show "k \<in> fst ` {x \<in> set d. Q (snd x)}" by force
    qed
  qed
  then show ?thesis
    by (intro filter_cong) (auto simp: case_prod_unfold)
qed

lemma begin_record:
  "dict_get (tasks (run_analysis_begin P c tid start_iso s1 s2 sv)) tid =
     Some \<lparr>task_id = tid, code = c, status = ''running'', start_time = Some start_iso,
           end_time = None, result = None, error = None\<rparr>"
  by (simp add: run_analysis_begin_def tasks_save_tasks dict_get_set)

lemma update_task_present:
  "dict_get (tasks sv) tid = Some t \<Longrightarrow>
   \<exists>sv'. update_task P tid f s1 s2 sv = Inr sv' \<and> dict_get (tasks sv') tid = Some (f t)"
  by (simp add: update_task_def tasks_save_tasks dict_get_set)


lemmas sample_defs = sample_fromisoformat_def sample_task_def sample_service_def
  DAY_US_def RETENTION_US_def


section \<open>Loading, saving and listing, in terms of filters\<close>

lemma review_loop_eq:
  "distinct (map fst data) \<Longrightarrow> fst ` set data \<inter> fst ` set acc = {} \<Longrightarrow>
   review_loop D now data acc = acc @ filter (\<lambda>(d, r). review_valid D now d) data"
proof (induction data arbitrary: acc)
  case Nil
  then show ?case by simp
next
  case (Cons a data)
  obtain k t where a: "a = (k, t)" by (cases a)
  from Cons.prems have d: "distinct (map fst data)" and k1: "k \<notin> fst ` set data"
    and k2: "k \<notin> fst ` set acc" and dj: "fst ` set data \<inter> fst ` set acc = {}"
    by (auto simp: a)
  have dj': "fst ` set data \<inter> fst ` set (acc @ [(k, t)]) = {}"
    using dj k1 by auto
  show ?case
    using Cons.IH[OF d dj] Cons.IH[OF d dj'] k2
    by (simp add: a review_valid_def dict_set_fresh split: option.splits)
qed

lemma load_tasks_Doc:
  assumes "task_file sv = Doc data" "distinct (map fst data)"
  shows "tasks (load_tasks P now save_now sv) = filter (\<lambda>(k, t). is_valid P now t) data"
    and "task_file (load_tasks P now save_now sv) =
           (if \<exists>(k, t) \<in> set data. is_expired P now t
            then Doc (filter (\<lambda>(k, t). is_valid P save_now t) (filter (\<lambda>(k, t). is_valid P now t) data))
            else Doc data)"
proof -
  obtain v h where l: "load_loop P now data [] False = (v, h)" by (cases "load_loop P now data [] False")
  have v: "v = filter (\<lambda>(k, t). is_valid P now t) data"
    using load_loop_fst[OF assms(2), of "[]" P now False] l by simp
  have h: "h = (\<exists>(k, t) \<in> set data. is_expired P now t)"
    using load_loop_snd[of P now data "[]" False] l by simp
  have dv: "distinct (map fst v)" unfolding v using assms(2) by (simp add: distinct_map_filter)
  show "tasks (load_tasks P now save_now sv) = filter (\<lambda>(k, t). is_valid P now t) data"
    by (simp add: load_tasks_def assms(1) l Let_def tasks_save_tasks v)
  have "save_loop P save_now v [] = filter (\<lambda>(k, t). is_valid P save_now t) v"
    using save_loop_eq[OF dv, of "[]" P save_now] by simp
  then show "task_file (load_tasks P now save_now sv) =
           (if \<exists>(k, t) \<in> set data. is_expired P now t
            then Doc (filter (\<lambda>(k, t). is_valid P save_now t) (filter (\<lambda>(k, t). is_valid P now t) data))
            else Doc data)"
    using h by (simp add: load_tasks_def assms(1) l Let_def task_file_save_tasks v)
qed

lemma is_valid_mono: "is_valid P n2 t \<Longrightarrow> n1 \<le> n2 \<Longrightarrow> is_valid P n1 t"
  by (auto simp: is_valid_def split: option.splits)


lemma is_expired_usable: "start_instant P t = None \<Longrightarrow> \<not> is_expired P now t"
  by (simp add: is_expired_def)

lemma save_tasks_file_filter:
  "distinct (map fst (tasks sv)) \<Longrightarrow>
   task_file (save_tasks P now sv) = Doc (filter (\<lambda>(k, t). is_valid P now t) (tasks sv))"
  using save_loop_eq[of "tasks sv" "[]" P now] by (simp add: task_file_save_tasks)

lemma clean_pass_tasks:
  "distinct (map fst (tasks sv)) \<Longrightarrow>
   tasks (clean_pass P now sv) = filter (\<lambda>(k, t). \<not> is_expired P now t) (tasks sv)"
proof -
  assume d: "distinct (map fst (tasks sv))"
  have "tasks (clean_pass P now sv) = foldl dict_del (tasks sv) (expired_loop P now (tasks sv))"
    by (simp add: clean_pass_def Let_def)
  also have "\<dots> = filter (\<lambda>(k, t). k \<notin> set (map fst (filter (\<lambda>(k, t). is_expired P now t) (tasks sv))))
                      (tasks sv)"
    by (simp only: expired_loop_eq fold_dict_del)
  also have "\<dots> = filter (\<lambda>(k, t). \<not> is_expired P now t) (tasks sv)"
    by (rule delete_expired[OF d])
  finally show ?thesis .
qed

lemma clean_pass_file: "task_file (clean_pass P now sv) = task_file sv"
  by (simp add: clean_pass_def Let_def)

lemma clean_pass_queue: "queue (clean_pass P now sv) = queue sv"
  by (simp add: clean_pass_def Let_def)

lemma clean_pass_bg:
  "bg_saves (clean_pass P now sv) =
     bg_saves sv + (if \<exists>(k, t) \<in> set (tasks sv). is_expired P now t then 1 else 0)"
  by (auto simp: clean_pass_def Let_def expired_loop_eq filter_empty_conv)

lemma list_tasks_state:
  assumes "distinct (map fst (tasks sv))"
  shows "tasks (snd (list_tasks P now1 now2 limit sv)) =
           filter (\<lambda>(k, t). \<not> is_expired P now1 t \<and> \<not> is_expired P now2 t) (tasks sv)"
proof -
  have d1: "distinct (map fst (tasks (clean_pass P now1 sv)))"
    using assms by (simp add: clean_pass_tasks distinct_map_filter)
  show ?thesis
    by (simp add: list_tasks_def Let_def clean_pass_tasks[OF d1] clean_pass_tasks[OF assms]
        case_prod_unfold conj_commute)
qed

lemma list_tasks_result:
  "fst (list_tasks P now1 now2 limit sv) =
     py_slice_to (py_sort_reverse start_key (dict_values (tasks (snd (list_tasks P now1 now2 limit sv))))) limit"
  by (simp add: list_tasks_def Let_def)

lemma set_py_sort_reverse: "set (py_sort_reverse key xs) = set xs"
  by (simp add: py_sort_reverse_def)

lemma length_py_sort_reverse: "length (py_sort_reverse key xs) = length xs"
  by (simp add: py_sort_reverse_def)

lemma sorted_py_sort_reverse: "sorted_wrt (\<lambda>a b. a \<ge> b) (map key (py_sort_reverse key xs))"
proof -
  have "sorted (map key (sort_key key (rev xs)))" by (rule sorted_sort_key)
  then have "sorted_wrt (\<lambda>a b. a \<ge> b) (rev (map key (sort_key key (rev xs))))"
    by (simp add: sorted_wrt_rev)
  then show ?thesis by (simp add: py_sort_reverse_def rev_map)
qed

lemma set_py_slice_to: "set (py_slice_to xs limit) \<subseteq> set xs"
  by (auto simp: py_slice_to_def dest: in_set_takeD)

lemma sorted_py_slice_to:
  "sorted_wrt R xs \<Longrightarrow> sorted_wrt R (py_slice_to xs limit)"
  by (simp add: py_slice_to_def sorted_wrt_take)




lemma dict_get_filter_keep:
  assumes "dict_get d k = Some t" and "Q (k, t)"
  shows "dict_get (filter Q d) k = Some t"
  using assms by (induction d) (auto simp: dict_get_def split: if_splits)



section \<open>Strings: stripping, splitting and joining\<close>

lemma strip_subset: "set (strip s) \<subseteq> set s"
proof
  fix x
  assume "x \<in> set (strip s)"
  then have "x \<in> set (dropWhile is_space (rev (dropWhile is_space s)))"
    by (simp add: strip_def)
  then have "x \<in> set (rev (dropWhile is_space s))" by (rule set_dropWhileD)
  then have "x \<in> set (dropWhile is_space s)" by simp
  then show "x \<in> set s" by (rule set_dropWhileD)
qed

lemma dropWhile_shorter: "xs \<noteq> [] \<Longrightarrow> P (hd xs) \<Longrightarrow> length (dropWhile P xs) < length xs"
  by (cases xs) (auto simp: le_imp_less_Suc length_dropWhile_le)

lemma dropWhile_fixed: "xs \<noteq> [] \<Longrightarrow> \<not> P (hd xs) \<Longrightarrow> dropWhile P xs = xs"
  by (cases xs) auto

lemma strip_fixed_iff:
  "strip s = s \<longleftrightarrow> s = [] \<or> (\<not> is_space (hd s) \<and> \<not> is_space (last s))"
proof (cases "s = []")
  case True
  then show ?thesis by (simp add: strip_def)
next
  case False
  show ?thesis
  proof
    assume fx: "strip s = s"
    have h: "\<not> is_space (hd s)"
    proof
      assume sp: "is_space (hd s)"
      have "length (dropWhile is_space s) < length s"
        using False sp by (rule dropWhile_shorter)
      moreover have "length (strip s) \<le> length (dropWhile is_space s)"
        using length_dropWhile_le[of is_space "rev (dropWhile is_space s)"] by (simp add: strip_def)
      ultimately show False using fx by simp
    qed
    have d: "dropWhile is_space s = s" using False h by (rule dropWhile_fixed)
    have l: "\<not> is_space (last s)"
    proof
      assume sp: "is_space (last s)"
      have ne: "rev s \<noteq> []" using False by simp
      have "is_space (hd (rev s))" using False sp by (simp add: hd_rev)
      with ne have "length (dropWhile is_space (rev s)) < length (rev s)"
        by (rule dropWhile_shorter)
      then have "length (strip s) < length s" by (simp add: strip_def d)
      then show False using fx by simp
    qed
    from h l show "s = [] \<or> (\<not> is_space (hd s) \<and> \<not> is_space (last s))" by simp
  next
    assume "s = [] \<or> (\<not> is_space (hd s) \<and> \<not> is_space (last s))"
    with False have h: "\<not> is_space (hd s)" and l: "\<not> is_space (last s)" by auto
    have d: "dropWhile is_space s = s" using False h by (rule dropWhile_fixed)
    have ne: "rev s \<noteq> []" using False by simp
    have "\<not> is_space (hd (rev s))" using False l by (simp add: hd_rev)
    with ne have "dropWhile is_space (rev s) = rev s" by (rule dropWhile_fixed)
    then show "strip s = s" by (simp add: strip_def d)
  qed
qed

lemma last_dropWhile: "dropWhile P xs \<noteq> [] \<Longrightarrow> last (dropWhile P xs) = last xs"
  by (induction xs) (auto split: if_splits)

lemma strip_idem: "strip (strip s) = strip s"
proof (cases "strip s = []")
  case True
  have "strip [] = []" by (simp add: strip_def)
  then show ?thesis by (simp only: True)
next
  case False
  define d where "d = dropWhile is_space s"
  define r where "r = dropWhile is_space (rev d)"
  have st: "strip s = rev r" by (simp add: strip_def d_def r_def)
  have r: "r \<noteq> []" using False st by simp
  have rd: "rev d \<noteq> []" using r unfolding r_def by auto
  then have d: "d \<noteq> []" by simp
  have "\<not> is_space (hd r)" using r unfolding r_def by (rule hd_dropWhile)
  then have l: "\<not> is_space (last (strip s))" using r by (simp add: st last_rev)
  have "last r = last (rev d)" using r unfolding r_def by (rule last_dropWhile)
  also have "\<dots> = hd d" using d by (simp add: last_rev)
  finally have "hd (strip s) = hd d" using r by (simp add: st hd_rev)
  moreover have "\<not> is_space (hd d)" using d unfolding d_def by (rule hd_dropWhile)
  ultimately have "\<not> is_space (hd (strip s))" by simp
  with l show ?thesis by (simp add: strip_fixed_iff)
qed

lemma split_on_nonempty: "split_on c xs \<noteq> []"
  by (induction xs) (auto split: list.splits)

lemma split_on_no_sep: "p \<in> set (split_on c xs) \<Longrightarrow> c \<notin> set p"
  by (induction xs arbitrary: p) (auto split: list.splits if_splits)

lemma split_on_subset: "p \<in> set (split_on c xs) \<Longrightarrow> set p \<subseteq> set xs"
proof (induction xs arbitrary: p)
  case Nil
  then show ?case by simp
next
  case (Cons a xs)
  show ?case
  proof (cases "a = c")
    case True
    then show ?thesis using Cons by auto
  next
    case False
    obtain q qs where q: "split_on c xs = q # qs"
      using split_on_nonempty[of c xs] by (cases "split_on c xs") auto
    have "p = a # q \<or> p \<in> set qs" using Cons.prems False by (simp add: q)
    then show ?thesis
    proof
      assume "p = a # q"
      moreover have "set q \<subseteq> set xs" using Cons.IH[of q] by (simp add: q)
      ultimately show ?thesis by auto
    next
      assume "p \<in> set qs"
      then have "set p \<subseteq> set xs" using Cons.IH[of p] by (simp add: q)
      then show ?thesis by auto
    qed
  qed
qed

lemma split_on_single: "c \<notin> set p \<Longrightarrow> split_on c p = [p]"
  by (induction p) auto

lemma split_on_append: "c \<notin> set p \<Longrightarrow> split_on c (p @ c # rest) = p # split_on c rest"
  by (induction p) (auto simp: split_on_nonempty split: list.splits)

lemma split_on_join:
  "\<forall>p \<in> set ps. c \<notin> set p \<Longrightarrow> ps \<noteq> [] \<Longrightarrow> split_on c (join [c] ps) = ps"
proof (induction "[c]" ps rule: join.induct)
  case 1
  then show ?case by simp
next
  case (2 p)
  then show ?case by (simp add: split_on_single)
next
  case (3 p q ps)
  then show ?case by (simp add: split_on_append)
qed

lemma set_join: "set (join sep ps) \<subseteq> set sep \<union> \<Union> (set ` set ps)"
  by (induction sep ps rule: join.induct) auto

lemma normalize_parts: "normalize_stock_list v = join '','' (stock_parts v)"
  by (simp add: normalize_stock_list_def)

lemma stock_parts_props:
  assumes "p \<in> set (stock_parts v)"
  shows "p \<noteq> []" and "strip p = p" and "CHR '','' \<notin> set p" and "LF \<notin> set p"
proof -
  let ?w = "map (\<lambda>c. if c = LF then CHR '','' else c) v"
  from assms obtain q where q: "q \<in> set (split_on (CHR '','') ?w)" and p: "p = strip q" and ne: "p \<noteq> []"
    by (auto simp: stock_parts_def)
  show "p \<noteq> []" by (rule ne)
  show "strip p = p" by (simp add: p strip_idem)
  have sub: "set p \<subseteq> set q" unfolding p by (rule strip_subset)
  show "CHR '','' \<notin> set p" using split_on_no_sep[OF q] sub by auto
  have "LF \<notin> set ?w" by (auto simp: LF_def)
  then show "LF \<notin> set p" using split_on_subset[OF q] sub by auto
qed

lemma stock_parts_join:
  assumes "\<forall>p \<in> set ps. p \<noteq> [] \<and> strip p = p \<and> CHR '','' \<notin> set p \<and> LF \<notin> set p"
  shows "stock_parts (join '','' ps) = ps"
proof (cases "ps = []")
  case True
  then show ?thesis by (simp add: stock_parts_def strip_def)
next
  case False
  have "LF \<notin> set (join '','' ps)"
    using set_join[of "'',''" ps] assms by (auto simp: LF_def)
  then have "map (\<lambda>c. if c = LF then CHR '','' else c) (join '','' ps) = join '','' ps"
    by (intro map_idI) auto
  moreover have "split_on (CHR '','') (join '','' ps) = ps"
    using split_on_join[of ps "CHR '',''"] assms False by simp
  moreover have "map strip ps = ps" using assms by (intro map_idI) auto
  moreover have "filter (\<lambda>p. p \<noteq> []) ps = ps" using assms by (simp add: filter_id_conv)
  ultimately show ?thesis by (simp add: stock_parts_def)
qed

lemma normalize_idem: "normalize_stock_list (normalize_stock_list v) = normalize_stock_list v"
proof -
  have "\<forall>p \<in> set (stock_parts v). p \<noteq> [] \<and> strip p = p \<and> CHR '','' \<notin> set p \<and> LF \<notin> set p"
    using stock_parts_props[of _ v] by blast
  then have "stock_parts (join '','' (stock_parts v)) = stock_parts v"
    by (rule stock_parts_join)
  then show ?thesis by (simp only: normalize_parts)
qed

section \<open>The match of a line and the first matching line\<close>

lemma takeWhile_all_then:
  "\<forall>c \<in> set w. P c \<Longrightarrow> r = [] \<or> \<not> P (hd r) \<Longrightarrow> takeWhile P (w @ r) = w"
  by (cases r) (simp_all add: takeWhile_append2)

lemma dropWhile_all_then:
  "\<forall>c \<in> set w. P c \<Longrightarrow> r = [] \<or> \<not> P (hd r) \<Longrightarrow> dropWhile P (w @ r) = r"
  by (cases r) (simp_all add: dropWhile_append2)

lemma takeWhile_all: "\<forall>c \<in> set w. P c \<Longrightarrow> takeWhile P w = w"
  by (induction w) auto

lemma dropWhile_all: "\<forall>c \<in> set w. P c \<Longrightarrow> dropWhile P w = []"
  by (induction w) auto

lemma not_space_S: "\<not> is_space (CHR ''S'')" by (simp add: is_space_def)
lemma not_space_eq: "\<not> is_space (CHR ''='')" by (simp add: is_space_def)

lemma rstrip_core:
  assumes "v = [] \<or> \<not> is_space (last v)" and "\<forall>c \<in> set s. is_space c"
  shows "dropWhile is_space (rev s @ rev v) = rev v"
  using assms by (intro dropWhile_all_then) (auto simp: hd_rev)

lemma match_build:
  assumes w1: "\<forall>c \<in> set w1. is_space c" and w2: "\<forall>c \<in> set w2. is_space c"
    and w3: "\<forall>c \<in> set w3. is_space c" and s: "\<forall>c \<in> set s. is_space c"
    and v: "v = [] \<or> (\<not> is_space (hd v) \<and> \<not> is_space (last v))"
  shows "\<exists>p' s'. stock_list_match (w1 @ ''STOCK_LIST'' @ w2 @ ''='' @ w3 @ v @ s) = Some (p', v, s')"
proof -
  let ?line = "w1 @ ''STOCK_LIST'' @ w2 @ ''='' @ w3 @ v @ s"
  let ?r2 = "w2 @ ''='' @ w3 @ v @ s"
  let ?r4 = "w3 @ v @ s"
  have p1: "takeWhile is_space ?line = w1"
    using w1 by (intro takeWhile_all_then) (simp_all add: not_space_S)
  have r1: "dropWhile is_space ?line = ''STOCK_LIST'' @ ?r2"
    using w1 by (intro dropWhile_all_then) (simp_all add: not_space_S)
  have t10: "take 10 (''STOCK_LIST'' @ ?r2) = ''STOCK_LIST''" by simp
  have d10: "drop 10 (''STOCK_LIST'' @ ?r2) = ?r2" by simp
  have p2: "takeWhile is_space ?r2 = w2"
    using w2 by (intro takeWhile_all_then) (simp_all add: not_space_eq)
  have r3: "dropWhile is_space ?r2 = CHR ''='' # ?r4"
    using dropWhile_all_then[of w2 is_space "''='' @ ?r4"] w2 by (simp add: not_space_eq)
  show ?thesis
  proof (cases "v = []")
    case True
    have ws: "\<forall>c \<in> set (w3 @ s). is_space c" using w3 s by auto
    have p3: "takeWhile is_space (w3 @ s) = w3 @ s"
      using ws by (rule takeWhile_all)
    have r5: "dropWhile is_space (w3 @ s) = []"
      using ws by (rule dropWhile_all)
    show ?thesis
      unfolding stock_list_match_def Let_def p1 r1 t10 d10 p2 r3
      by (simp add: p3 r5 True)
  next
    case False
    with v have hv: "\<not> is_space (hd v)" and lv: "\<not> is_space (last v)" by auto
    have p3: "takeWhile is_space ?r4 = w3"
      using w3 False hv by (intro takeWhile_all_then) simp_all
    have r5: "dropWhile is_space ?r4 = v @ s"
      using w3 False hv by (intro dropWhile_all_then) simp_all
    have val: "dropWhile is_space (rev s @ rev v) = rev v"
      using lv s by (intro rstrip_core) simp_all
    show ?thesis
      unfolding stock_list_match_def Let_def p1 r1 t10 d10 p2 r3
      by (simp add: p3 r5 val)
  qed
qed

lemma match_shape:
  assumes "stock_list_match l = Some (p, x, s)"
  shows "\<exists>w1 w2 w3. (\<forall>c \<in> set w1. is_space c) \<and> (\<forall>c \<in> set w2. is_space c) \<and>
           (\<forall>c \<in> set w3. is_space c) \<and> p = w1 @ ''STOCK_LIST'' @ w2 @ ''='' @ w3"
    and "\<forall>c \<in> set s. is_space c"
    and "l = p @ x @ s"
proof -
  define p1 where "p1 = takeWhile is_space l"
  define r1 where "r1 = dropWhile is_space l"
  define r2 where "r2 = drop 10 r1"
  define p2 where "p2 = takeWhile is_space r2"
  define r3 where "r3 = dropWhile is_space r2"
  have m: "stock_list_match l =
      (if take 10 r1 \<noteq> ''STOCK_LIST'' then None
       else (case r3 of [] \<Rightarrow> None
             | c # r4 \<Rightarrow>
                 if c \<noteq> CHR ''='' then None
                 else Some (p1 @ ''STOCK_LIST'' @ p2 @ ''='' @ takeWhile is_space r4,
                            rev (dropWhile is_space (rev (dropWhile is_space r4))),
                            drop (length (rev (dropWhile is_space (rev (dropWhile is_space r4)))))
                              (dropWhile is_space r4))))"
    unfolding stock_list_match_def Let_def p1_def r1_def r2_def p2_def r3_def
    by (rule refl)
  from assms m have t: "take 10 r1 = ''STOCK_LIST''"
    by (auto split: if_splits)
  from assms m t obtain c r4 where r3: "r3 = c # r4"
    by (cases r3) auto
  from assms m t r3 have c: "c = CHR ''=''"
    by (auto split: if_splits)
  define p3 where "p3 = takeWhile is_space r4"
  define r5 where "r5 = dropWhile is_space r4"
  define v where "v = rev (dropWhile is_space (rev r5))"
  define sfx where "sfx = rev (takeWhile is_space (rev r5))"
  have m2: "stock_list_match l = Some (p1 @ ''STOCK_LIST'' @ p2 @ ''='' @ p3, v, drop (length v) r5)"
    unfolding m p3_def r5_def v_def by (simp add: t r3 c)
  have e: "Some (p1 @ ''STOCK_LIST'' @ p2 @ ''='' @ p3, v, drop (length v) r5) = Some (p, x, s)"
    using assms by (simp only: m2)
  have e': "p1 @ ''STOCK_LIST'' @ p2 @ ''='' @ p3 = p \<and> v = x \<and> drop (length v) r5 = s"
    using e by auto
  have p: "p = p1 @ ''STOCK_LIST'' @ p2 @ ''='' @ p3"
    using e' by blast
  have x: "x = v"
    using e' by blast
  have s: "s = drop (length v) r5"
    using e' by blast
  have "rev (takeWhile is_space (rev r5) @ dropWhile is_space (rev r5)) = rev (rev r5)"
    by (simp only: takeWhile_dropWhile_id)
  then have "rev (dropWhile is_space (rev r5)) @ rev (takeWhile is_space (rev r5)) = r5"
    by (simp only: rev_append rev_rev_ident)
  then have r5: "r5 = v @ sfx"
    by (simp only: v_def sfx_def)
  have s': "s = sfx"
    by (simp add: s r5)
  show "\<forall>c \<in> set s. is_space c"
    unfolding s' sfx_def by (auto dest: set_takeWhileD)
  show "\<exists>w1 w2 w3. (\<forall>c \<in> set w1. is_space c) \<and> (\<forall>c \<in> set w2. is_space c) \<and>
           (\<forall>c \<in> set w3. is_space c) \<and> p = w1 @ ''STOCK_LIST'' @ w2 @ ''='' @ w3"
    using p unfolding p1_def p2_def p3_def
    by (intro exI[of _ "takeWhile is_space l"] exI[of _ "takeWhile is_space r2"]
          exI[of _ "takeWhile is_space r4"]) (auto dest: set_takeWhileD)
  have l1: "l = p1 @ r1" by (simp add: p1_def r1_def)
  have "take 10 r1 @ drop 10 r1 = r1" by (rule append_take_drop_id)
  then have l2: "r1 = ''STOCK_LIST'' @ r2" by (simp only: t r2_def[symmetric])
  have "takeWhile is_space r2 @ dropWhile is_space r2 = r2" by (rule takeWhile_dropWhile_id)
  then have l3: "r2 = p2 @ c # r4" by (simp only: p2_def[symmetric] r3_def[symmetric] r3)
  have l4: "r4 = p3 @ r5" by (simp add: p3_def r5_def)
  have "l = p1 @ ''STOCK_LIST'' @ p2 @ c # p3 @ v @ sfx"
    by (subst l1, subst l2, subst l3, subst l4, subst r5) simp
  then show "l = p @ x @ s" by (simp add: p x s' c)
qed

lemma match_empty: "stock_list_match [] = None"
  by (simp add: stock_list_match_def)

lemma update_loop_eq:
  "update_loop v ls out rep =
     (out @ map (\<lambda>l. case stock_list_match l of None \<Rightarrow> l | Some (p, x, s) \<Rightarrow> p @ v @ s) ls,
      rep \<or> (\<exists>l \<in> set ls. stock_list_match l \<noteq> None))"
proof (induction ls arbitrary: out rep)
  case Nil
  then show ?case by simp
next
  case (Cons l ls)
  show ?case
  proof (cases "stock_list_match l")
    case None
    then show ?thesis by (simp add: Cons.IH)
  next
    case (Some m)
    obtain p x s where m: "m = (p, x, s)" by (cases m)
    show ?thesis by (simp add: Some m Cons.IH)
  qed
qed

lemma extract_match:
  assumes "stock_list_match l = Some (p, x, s)"
    and v: "strip v = v" and nq: "\<not> quoted v"
  shows "extract_lines ((p @ v @ s) # rest) = v"
proof -
  from match_shape(1)[OF assms(1)] obtain w1 w2 w3 where
    w1: "\<forall>c \<in> set w1. is_space c" and w2: "\<forall>c \<in> set w2. is_space c" and
    w3: "\<forall>c \<in> set w3. is_space c" and p: "p = w1 @ ''STOCK_LIST'' @ w2 @ ''='' @ w3"
    by blast
  have s: "\<forall>c \<in> set s. is_space c" by (rule match_shape(2)[OF assms(1)])
  have v': "v = [] \<or> (\<not> is_space (hd v) \<and> \<not> is_space (last v))"
    using v by (simp only: strip_fixed_iff)
  from match_build[OF w1 w2 w3 s v'] obtain p' s' where
    "stock_list_match (w1 @ ''STOCK_LIST'' @ w2 @ ''='' @ w3 @ v @ s) = Some (p', v, s')"
    by blast
  then have "stock_list_match (p @ v @ s) = Some (p', v, s')"
    by (simp add: p)
  then show ?thesis by (simp add: v nq)
qed

lemma extract_fresh_line:
  assumes v: "strip v = v" and nq: "\<not> quoted v"
  shows "extract_lines ((''STOCK_LIST='' @ v) # rest) = v"
proof -
  have v': "v = [] \<or> (\<not> is_space (hd v) \<and> \<not> is_space (last v))"
    using v by (simp only: strip_fixed_iff)
  from match_build[of "[]" "[]" "[]" "[]" v] v' obtain p' s' where
    "stock_list_match ([] @ ''STOCK_LIST'' @ [] @ ''='' @ [] @ v @ []) = Some (p', v, s')"
    by auto
  then have "stock_list_match (''STOCK_LIST='' @ v) = Some (p', v, s')" by simp
  then show ?thesis by (simp add: v nq)
qed

lemma extract_skip:
  "\<forall>l \<in> set ls. stock_list_match l = None \<Longrightarrow> extract_lines (ls @ rest) = extract_lines rest"
  by (induction ls) simp_all

lemma extract_replaced:
  assumes "\<exists>l \<in> set ls. stock_list_match l \<noteq> None"
    and v: "strip v = v" and nq: "\<not> quoted v"
  shows "extract_lines (map (\<lambda>l. case stock_list_match l of None \<Rightarrow> l | Some (p, x, s) \<Rightarrow> p @ v @ s) ls) = v"
  using assms(1)
proof (induction ls)
  case Nil
  then show ?case by simp
next
  case (Cons l ls)
  show ?case
  proof (cases "stock_list_match l")
    case None
    with Cons.prems have "\<exists>l \<in> set ls. stock_list_match l \<noteq> None" by simp
    from Cons.IH[OF this] show ?thesis by (simp add: None)
  next
    case (Some m)
    obtain p x s where m: "m = (p, x, s)" by (cases m)
    have "stock_list_match l = Some (p, x, s)" by (simp add: Some m)
    from extract_match[OF this v nq] show ?thesis by (simp add: Some m)
  qed
qed

lemma extract_update_lines:
  assumes v: "strip v = v" and nq: "\<not> quoted v"
    and u: "update_loop v ls [] False = (out_lines, replaced)"
  shows "extract_lines
           (if replaced then out_lines
            else (if out_lines \<noteq> [] \<and> strip (last out_lines) \<noteq> [] then out_lines @ [ [] ]
                  else out_lines) @ [''STOCK_LIST='' @ v]) = v"
proof -
  let ?f = "\<lambda>l. case stock_list_match l of None \<Rightarrow> l | Some (p, x, s) \<Rightarrow> p @ v @ s"
  from u have o: "out_lines = map ?f ls" and r: "replaced = (\<exists>l \<in> set ls. stock_list_match l \<noteq> None)"
    by (simp_all add: update_loop_eq)
  show ?thesis
  proof (cases replaced)
    case True
    then have "extract_lines out_lines = v"
      unfolding o using extract_replaced[OF _ v nq, of ls] r by simp
    then show ?thesis by (simp add: True)
  next
    case False
    then have none: "\<forall>l \<in> set ls. stock_list_match l = None" using r by blast
    then have same: "out_lines = ls" unfolding o by (intro map_idI) simp
    have n1: "\<forall>l \<in> set out_lines. stock_list_match l = None" using none same by simp
    have n2: "\<forall>l \<in> set (out_lines @ [ [] ]). stock_list_match l = None"
      using n1 by (simp add: match_empty)
    have a: "extract_lines (out_lines @ [''STOCK_LIST='' @ v]) = v"
      using extract_skip[OF n1, of "[''STOCK_LIST='' @ v]"] extract_fresh_line[OF v nq, of "[]"]
      by simp
    have b: "extract_lines ((out_lines @ [ [] ]) @ [''STOCK_LIST='' @ v]) = v"
      using extract_skip[OF n2, of "[''STOCK_LIST='' @ v]"] extract_fresh_line[OF v nq, of "[]"]
      by simp
    show ?thesis using a b by (simp add: False)
  qed
qed

section \<open>Lines of the written file\<close>

lemma linebreak_LF: "is_linebreak LF" by (simp add: is_linebreak_def LF_def)
lemma linebreak_CR: "is_linebreak CR" by (simp add: is_linebreak_def CR_def)
lemma LF_not_CR: "LF \<noteq> CR" by (simp add: LF_def CR_def)

lemma splitlines_break_free:
  "l \<in> set (splitlines t) \<Longrightarrow> \<forall>c \<in> set l. \<not> is_linebreak c"
proof (induction t arbitrary: l rule: splitlines.induct)
  case 1
  then show ?case by simp
next
  case (2 c)
  then show ?case by (auto split: if_splits)
next
  case (3 c d cs)
  show ?case
  proof (cases "c = CR \<and> d = LF")
    case True
    with "3.prems" have "l = [] \<or> l \<in> set (splitlines cs)" by auto
    then show ?thesis using "3.IH"(1)[OF True] by auto
  next
    case nocrlf: False
    show ?thesis
    proof (cases "is_linebreak c")
      case True
      with "3.prems" nocrlf have "l = [] \<or> l \<in> set (splitlines (d # cs))" by auto
      then show ?thesis using "3.IH"(2)[OF nocrlf True] by auto
    next
      case False
      show ?thesis
      proof (cases "splitlines (d # cs)")
        case Nil
        with "3.prems" nocrlf False have "l = [c]" by auto
        then show ?thesis using False by simp
      next
        case (Cons m ms)
        with "3.prems" nocrlf False have "l = c # m \<or> l \<in> set ms" by auto
        moreover have "\<forall>c \<in> set m. \<not> is_linebreak c"
          using "3.IH"(3)[OF nocrlf False, of m] Cons by simp
        moreover have "l \<in> set ms \<Longrightarrow> \<forall>c \<in> set l. \<not> is_linebreak c"
          using "3.IH"(3)[OF nocrlf False, of l] Cons by simp
        ultimately show ?thesis using False by auto
      qed
    qed
  qed
qed

lemma splitlines_line:
  "\<forall>c \<in> set l. \<not> is_linebreak c \<Longrightarrow> splitlines (l @ LF # rest) = l # splitlines rest"
proof (induction l)
  case Nil
  show ?case by (cases rest) (simp_all add: linebreak_LF LF_not_CR)
next
  case (Cons a l)
  then have a: "\<not> is_linebreak a" and ih: "splitlines (l @ LF # rest) = l # splitlines rest"
    by simp_all
  from a have acr: "a \<noteq> CR" using linebreak_CR by auto
  obtain d cs where dc: "l @ LF # rest = d # cs" by (cases "l @ LF # rest") auto
  have "splitlines (a # d # cs) = (case splitlines (d # cs) of [] \<Rightarrow> [ [a] ] | m # ms \<Rightarrow> (a # m) # ms)"
    using a acr by simp
  then show ?case using ih by (simp add: dc[symmetric])
qed

lemma splitlines_single:
  "\<forall>c \<in> set l. \<not> is_linebreak c \<Longrightarrow> l \<noteq> [] \<Longrightarrow> splitlines l = [l]"
proof (induction l)
  case Nil
  then show ?case by simp
next
  case (Cons a l)
  then have a: "\<not> is_linebreak a" by simp
  from a have acr: "a \<noteq> CR" using linebreak_CR by auto
  show ?case
  proof (cases l)
    case Nil
    then show ?thesis using a by simp
  next
    case (Cons b m)
    have "splitlines (b # m) = [b # m]" using Cons.IH Cons.prems Cons by simp
    then show ?thesis using a acr by (simp add: Cons)
  qed
qed

lemma extract_splitlines_join:
  assumes "\<forall>l \<in> set ls. \<forall>c \<in> set l. \<not> is_linebreak c" and "tail = [] \<or> tail = [LF]"
  shows "extract_lines (splitlines (join [LF] ls @ tail)) = extract_lines ls"
  using assms(1)
proof (induction "[LF]" ls rule: join.induct)
  case 1
  show ?case using assms(2) by (auto simp: linebreak_LF match_empty)
next
  case (2 p)
  then have p: "\<forall>c \<in> set p. \<not> is_linebreak c" by simp
  from assms(2) show ?case
  proof
    assume t0: "tail = []"
    show ?thesis
    proof (cases "p = []")
      case True
      then show ?thesis by (simp add: t0 match_empty)
    next
      case False
      then show ?thesis using splitlines_single[OF p] by (simp add: t0)
    qed
  next
    assume t0: "tail = [LF]"
    show ?thesis using splitlines_line[OF p, of "[]"] by (simp add: t0)
  qed
next
  case (3 p q ps)
  then have p: "\<forall>c \<in> set p. \<not> is_linebreak c"
    and rest: "\<forall>l \<in> set (q # ps). \<forall>c \<in> set l. \<not> is_linebreak c" by simp_all
  have ih: "extract_lines (splitlines (join [LF] (q # ps) @ tail)) = extract_lines (q # ps)"
    by (rule "3.hyps"[OF rest])
  have "join [LF] (p # q # ps) @ tail = p @ LF # (join [LF] (q # ps) @ tail)" by simp
  then have "splitlines (join [LF] (p # q # ps) @ tail) = p # splitlines (join [LF] (q # ps) @ tail)"
    using splitlines_line[OF p] by simp
  then show ?case using ih by (simp split: option.splits)
qed

lemma universal_newlines_id: "CR \<notin> set t \<Longrightarrow> universal_newlines t = t"
  by (induction t rule: universal_newlines.induct) auto

lemma hd_join: "ps \<noteq> [] \<Longrightarrow> \<forall>p \<in> set ps. p \<noteq> [] \<Longrightarrow> hd (join sep ps) = hd (hd ps)"
  by (induction sep ps rule: join.induct) auto

lemma join_Nil_iff: "\<forall>p \<in> set ps. p \<noteq> [] \<Longrightarrow> join sep ps = [] \<longleftrightarrow> ps = []"
  by (induction sep ps rule: join.induct) auto

lemma last_join: "ps \<noteq> [] \<Longrightarrow> \<forall>p \<in> set ps. p \<noteq> [] \<Longrightarrow> last (join sep ps) = last (last ps)"
proof (induction sep ps rule: join.induct)
  case (1 sep)
  then show ?case by simp
next
  case (2 sep p)
  then show ?case by simp
next
  case (3 sep p q ps)
  have ne: "join sep (q # ps) \<noteq> []"
    using join_Nil_iff[of "q # ps" sep] "3.prems" by simp
  have "last (join sep (q # ps)) = last (last (q # ps))"
    using "3.IH" "3.prems" by simp
  then show ?case using ne by simp
qed

lemma strip_normalize: "strip (normalize_stock_list s) = normalize_stock_list s"
proof (cases "stock_parts s = []")
  case True
  then show ?thesis by (simp add: normalize_parts strip_def)
next
  case False
  have ne: "\<forall>p \<in> set (stock_parts s). p \<noteq> []" using stock_parts_props(1) by blast
  have h: "hd (stock_parts s) \<in> set (stock_parts s)" and l: "last (stock_parts s) \<in> set (stock_parts s)"
    using False by simp_all
  have "strip (hd (stock_parts s)) = hd (stock_parts s)" using stock_parts_props(2)[OF h] .
  then have hs: "\<not> is_space (hd (hd (stock_parts s)))"
    using stock_parts_props(1)[OF h] by (simp add: strip_fixed_iff)
  have "strip (last (stock_parts s)) = last (stock_parts s)" using stock_parts_props(2)[OF l] .
  then have ls: "\<not> is_space (last (last (stock_parts s)))"
    using stock_parts_props(1)[OF l] by (simp add: strip_fixed_iff)
  show ?thesis
    unfolding normalize_parts strip_fixed_iff
    using hs ls by (simp add: hd_join[OF False ne] last_join[OF False ne])
qed

lemma updated_line_break_free:
  assumes l: "\<forall>c \<in> set l. \<not> is_linebreak c" and v: "\<forall>c \<in> set v. \<not> is_linebreak c"
  shows "\<forall>c \<in> set (case stock_list_match l of None \<Rightarrow> l | Some (p, x, s) \<Rightarrow> p @ v @ s).
           \<not> is_linebreak c"
proof (cases "stock_list_match l")
  case None
  then show ?thesis using l by simp
next
  case (Some m)
  obtain p x s where m: "m = (p, x, s)" by (cases m)
  have "l = p @ x @ s" using match_shape(3)[of l p x s] Some m by simp
  then have "set p \<subseteq> set l" and "set s \<subseteq> set l" by auto
  then show ?thesis using l v by (auto simp: Some m)
qed

lemma fresh_line_break_free:
  "\<forall>c \<in> set v. \<not> is_linebreak c \<Longrightarrow> \<forall>c \<in> set (''STOCK_LIST='' @ v). \<not> is_linebreak c"
  by (simp add: is_linebreak_def)

lemma join_LF_no_CR:
  assumes "\<forall>l \<in> set ls. \<forall>c \<in> set l. \<not> is_linebreak c"
  shows "CR \<notin> set (join [LF] ls @ (if b then [LF] else []))"
proof -
  have "CR \<notin> set (join [LF] ls)"
    using set_join[of "[LF]" ls] assms linebreak_CR LF_not_CR by auto
  then show ?thesis using LF_not_CR by auto
qed

lemma get_after_update:
  assumes v: "strip v = v" and nq: "\<not> quoted v" and bf: "\<forall>c \<in> set v. \<not> is_linebreak c"
  shows "extract_stock_list (universal_newlines (update_stock_list env v)) = v"
proof -
  let ?f = "\<lambda>l. case stock_list_match l of None \<Rightarrow> l | Some (p, x, s) \<Rightarrow> p @ v @ s"
  obtain out_lines replaced where u: "update_loop v (splitlines env) [] False = (out_lines, replaced)"
    by (cases "update_loop v (splitlines env) [] False")
  define out' where "out' = (if replaced then out_lines
            else (if out_lines \<noteq> [] \<and> strip (last out_lines) \<noteq> [] then out_lines @ [ [] ]
                  else out_lines) @ [''STOCK_LIST='' @ v])"
  define b where "b = (if env \<noteq> [] then last env = LF else True)"
  have upd: "update_stock_list env v = join [LF] out' @ (if b then [LF] else [])"
    by (simp add: update_stock_list_def u Let_def out'_def b_def)
  have o: "out_lines = map ?f (splitlines env)"
    using u by (simp add: update_loop_eq)
  have ob: "\<forall>l \<in> set out_lines. \<forall>c \<in> set l. \<not> is_linebreak c"
  proof
    fix l assume "l \<in> set out_lines"
    then obtain l0 where l0: "l0 \<in> set (splitlines env)" and l: "l = ?f l0"
      unfolding o by auto
    show "\<forall>c \<in> set l. \<not> is_linebreak c"
      unfolding l by (rule updated_line_break_free[OF splitlines_break_free[OF l0] bf])
  qed
  have ob': "\<forall>l \<in> set out'. \<forall>c \<in> set l. \<not> is_linebreak c"
    using ob fresh_line_break_free[OF bf] by (auto simp: out'_def)
  have "CR \<notin> set (update_stock_list env v)"
    unfolding upd by (rule join_LF_no_CR[OF ob'])
  then have "universal_newlines (update_stock_list env v) = update_stock_list env v"
    by (rule universal_newlines_id)
  then have "extract_stock_list (universal_newlines (update_stock_list env v)) =
             extract_lines (splitlines (join [LF] out' @ (if b then [LF] else [])))"
    by (simp add: extract_stock_list_def upd)
  also have "\<dots> = extract_lines out'"
    by (rule extract_splitlines_join[OF ob']) simp
  also have "\<dots> = v"
    unfolding out'_def by (rule extract_update_lines[OF v nq u])
  finally show ?thesis .
qed



section \<open>Every record of a reachable table has a usable start time\<close>











section \<open>Deleting and reading a task\<close>

text \<open>
  C8. \<open>delete_task\<close> answers \<open>True\<close> exactly when the table held a record for the id.
  Then the record is removed and the file rewritten from the table without it; otherwise
  the service is left as it was and nothing is raised. In both cases a
  \<open>get_task_status\<close> of the same id right after finds nothing.
\<close>

theorem delete_task_result:
  "fst (delete_task P now sv tid) = (dict_get (tasks sv) tid \<noteq> None) \<and>
   (dict_get (tasks sv) tid \<noteq> None \<longrightarrow>
      tasks (snd (delete_task P now sv tid)) = dict_del (tasks sv) tid \<and>
      task_file (snd (delete_task P now sv tid)) = Doc (save_loop P now (dict_del (tasks sv) tid) [])) \<and>
   (dict_get (tasks sv) tid = None \<longrightarrow> snd (delete_task P now sv tid) = sv) \<and>
   fst (get_task_status (snd (delete_task P now sv tid)) tid) = None"
  by (simp add: delete_task_def dict_has_get get_task_status_def tasks_save_tasks
      task_file_save_tasks dict_get_del)


theorem delete_task_result_witness:
  "dict_get (tasks (sample_service [(''a'', sample_task ''a'' (Some ''2024-01-04T00:00:00''))])) ''a'' \<noteq> None \<and>
   fst (delete_task sample_fromisoformat (4 * DAY_US)
         (sample_service [(''a'', sample_task ''a'' (Some ''2024-01-04T00:00:00''))]) ''a'') \<and>
   task_file (snd (delete_task sample_fromisoformat (4 * DAY_US)
         (sample_service [(''a'', sample_task ''a'' (Some ''2024-01-04T00:00:00''))]) ''a'')) = Doc [] \<and>
   dict_get (tasks (sample_service [])) ''a'' = None \<and>
   \<not> fst (delete_task sample_fromisoformat (4 * DAY_US) (sample_service []) ''a'') \<and>
   snd (delete_task sample_fromisoformat (4 * DAY_US) (sample_service []) ''a'') = sample_service []"
  using delete_task_result [of sample_fromisoformat "4 * DAY_US"
          "sample_service [(''a'', sample_task ''a'' (Some ''2024-01-04T00:00:00''))]" "''a''"]
        delete_task_result [of sample_fromisoformat "4 * DAY_US" "sample_service []" "''a''"]
  by (simp add: sample_service_def dict_get_def dict_del_def)



text \<open>
  C9. \<open>get_task_status\<close> and \<open>get_review_by_date\<close> return what the table holds for the
  key, expired or not, and hand back the service unchanged: every later operation sees
  the state it would have seen without the lookup.
\<close>

theorem get_no_side_effect:
  "get_task_status sv tid = (dict_get (tasks sv) tid, sv) \<and>
   get_review_by_date ms d = (dict_get (reviews ms) d, ms)"
  by (simp add: get_task_status_def get_review_by_date_def)



section \<open>The worker\<close>

text \<open>
  The second part of \<open>_run_analysis\<close> needs the record the first part wrote. When
  \<open>delete_task\<close> has removed it while the collaborator was at work, the update raises
  \<open>KeyError\<close> whatever the collaborator did.
\<close>

lemma finish_after_delete:
  "dict_get (tasks sv) tid = None \<Longrightarrow>
   run_analysis_finish P tid oc end_iso s3 s4 h_iso h1 h2 sv = Inl (KeyError tid)"
  by (cases oc) (simp_all add: run_analysis_finish_def record_failure_def update_task_def)

text \<open>
  What a run leaves when nothing else touches the service between its two parts. The
  record written at the start is running and satisfies the invariant of task records;
  the run raises nothing and the final record satisfies the invariant in three of the
  four cases: failed with the text of the exception when the collaborator raised, failed
  with the fixed message when it returned nothing, completed with the result when it
  returned one. In the fourth case, an exception after the completed update, the handler
  leaves a failed record that still holds the result.
\<close>

lemma run_analysis_undisturbed:
  "(case fst (get_task_status (run_analysis_begin P c tid start_iso s1 s2 sv) tid) of
      None \<Rightarrow> False
    | Some t \<Rightarrow> status t = ''running'' \<and> task_inv t) \<and>
   (case run_analysis P c tid start_iso s1 s2 oc end_iso s3 s4 h_iso h1 h2 sv of
      Inl e \<Rightarrow> False
    | Inr (reply, sv') \<Rightarrow>
        (case fst (get_task_status sv' tid) of
           None \<Rightarrow> False
         | Some t \<Rightarrow>
             (case oc of
                Raised msg \<Rightarrow> task_inv t \<and> status t = ''failed'' \<and> error t = Some msg \<and>
                  end_time t = Some h_iso \<and> result t = None
              | Falsy \<Rightarrow> task_inv t \<and> status t = ''failed'' \<and> error t = Some EMPTY_RESULT_MSG \<and>
                  end_time t = Some end_iso \<and> result t = None
              | Truthy r Read \<Rightarrow> task_inv t \<and> status t = ''completed'' \<and> result t = Some r \<and>
                  end_time t = Some end_iso \<and> error t = None
              | Truthy r (ReadRaises msg) \<Rightarrow> \<not> task_inv t \<and> status t = ''failed'' \<and>
                  error t = Some msg \<and> end_time t = Some h_iso \<and> result t = Some r)))"
proof -
  let ?sv1 = "run_analysis_begin P c tid start_iso s1 s2 sv"
  let ?t0 = "\<lparr>task_id = tid, code = c, status = ''running'', start_time = Some start_iso,
           end_time = None, result = None, error = (None :: string option)\<rparr> :: 'a task"
  have b: "dict_get (tasks ?sv1) tid = Some ?t0" by (rule begin_record)
  have first: "(case fst (get_task_status ?sv1 tid) of None \<Rightarrow> False
      | Some t \<Rightarrow> status t = ''running'' \<and> task_inv t)"
    by (simp add: get_task_status_def b task_inv_def)
  have second: "(case run_analysis P c tid start_iso s1 s2 oc end_iso s3 s4 h_iso h1 h2 sv of
      Inl e \<Rightarrow> False
    | Inr (reply, sv') \<Rightarrow>
        (case fst (get_task_status sv' tid) of
           None \<Rightarrow> False
         | Some t \<Rightarrow>
             (case oc of
                Raised msg \<Rightarrow> task_inv t \<and> status t = ''failed'' \<and> error t = Some msg \<and>
                  end_time t = Some h_iso \<and> result t = None
              | Falsy \<Rightarrow> task_inv t \<and> status t = ''failed'' \<and> error t = Some EMPTY_RESULT_MSG \<and>
                  end_time t = Some end_iso \<and> result t = None
              | Truthy r Read \<Rightarrow> task_inv t \<and> status t = ''completed'' \<and> result t = Some r \<and>
                  end_time t = Some end_iso \<and> error t = None
              | Truthy r (ReadRaises msg) \<Rightarrow> \<not> task_inv t \<and> status t = ''failed'' \<and>
                  error t = Some msg \<and> end_time t = Some h_iso \<and> result t = Some r)))"
  proof (cases oc)
    case (Raised msg)
    then show ?thesis
      by (simp add: run_analysis_def run_analysis_finish_def record_failure_def update_task_def b
         get_task_status_def tasks_save_tasks dict_get_set task_inv_def)
  next
    case Falsy
    then show ?thesis
      by (simp add: run_analysis_def run_analysis_finish_def record_failure_def update_task_def b
         get_task_status_def tasks_save_tasks dict_get_set task_inv_def)
  next
    case (Truthy r advice)
    then show ?thesis
      by (cases advice)
         (simp_all add: run_analysis_def run_analysis_finish_def record_failure_def update_task_def b
           get_task_status_def tasks_save_tasks dict_get_set task_inv_def)
  qed
  from first second show ?thesis by (rule conjI)
qed

text \<open>
  C7. The code does not keep what the claim says. The handler of \<open>_run_analysis\<close>
  subscripts the table without a guard, so when \<open>delete_task\<close> removes the record while
  the collaborator runs (the lock is free then) and the collaborator raises, the handler
  raises \<open>KeyError\<close> and the exception leaves the worker, with no record produced. And
  when an exception follows the completed update, the handler writes \<open>failed\<close> and the
  error into a record that keeps its result.
\<close>

theorem worker_delete_in_flight:
  "run_analysis_finish sample_fromisoformat ''600519_x'' (Raised ''network timeout'')
     ''2024-01-05T00:05:00'' (4 * DAY_US) (4 * DAY_US) ''2024-01-05T00:05:00'' (4 * DAY_US) (4 * DAY_US)
     (snd (delete_task sample_fromisoformat (4 * DAY_US)
        (run_analysis_begin sample_fromisoformat ''600519'' ''600519_x'' ''2024-01-05T00:00:00''
           (4 * DAY_US) (4 * DAY_US) (sample_service []))
        ''600519_x'')) = Inl (KeyError ''600519_x'') \<and>
   fst (delete_task sample_fromisoformat (4 * DAY_US)
        (run_analysis_begin sample_fromisoformat ''600519'' ''600519_x'' ''2024-01-05T00:00:00''
           (4 * DAY_US) (4 * DAY_US) (sample_service []))
        ''600519_x'') \<and>
   (case run_analysis sample_fromisoformat ''600519'' ''600519_x'' ''2024-01-05T00:00:00''
           (4 * DAY_US) (4 * DAY_US) (Truthy () (ReadRaises ''no advice''))
           ''2024-01-05T00:05:00'' (4 * DAY_US) (4 * DAY_US)
           ''2024-01-05T00:05:01'' (4 * DAY_US) (4 * DAY_US) (sample_service []) of
      Inl e \<Rightarrow> False
    | Inr (reply, sv') \<Rightarrow>
        fst (get_task_status sv' ''600519_x'') =
          Some \<lparr>task_id = ''600519_x'', code = ''600519'', status = ''failed'',
                start_time = Some ''2024-01-05T00:00:00'', end_time = Some ''2024-01-05T00:05:01'',
                result = Some (), error = Some ''no advice''\<rparr>)"
  by (simp add: run_analysis_def run_analysis_finish_def record_failure_def update_task_def
      run_analysis_begin_def delete_task_def save_tasks_def sample_service_def get_task_status_def
      dict_get_def dict_set_def dict_del_def dict_has_def)


text \<open>
  C1, as the code has it. \<open>submit_analysis\<close> writes nothing to the table: it hands the
  job to the pool, and the running record is the first thing a worker writes when it
  starts \<open>_run_analysis\<close>. So for an id that the table did not hold, a lookup after the
  call meets one of two states: no worker has started the job yet (all workers may be
  busy) and the id is unknown, or a worker has started it and the record is running,
  with no \<open>end_time\<close>, result or error. It is never completed or failed before the
  collaborator has returned.
\<close>

theorem submit_then_status:
  "reply_task_id (fst (submit_analysis stamp c sv)) = c @ ''_'' @ stamp \<and>
   queue (snd (submit_analysis stamp c sv)) = queue sv @ [(c, c @ ''_'' @ stamp)] \<and>
   (fst (get_task_status sv (c @ ''_'' @ stamp)) = None \<longrightarrow>
      (case fst (get_task_status
                  (if started
                   then run_analysis_begin P c (c @ ''_'' @ stamp) start_iso s1 s2
                          (snd (submit_analysis stamp c sv))
                   else snd (submit_analysis stamp c sv))
                  (c @ ''_'' @ stamp)) of
         None \<Rightarrow> \<not> started
       | Some t \<Rightarrow> started \<and> status t = ''running'' \<and> end_time t = None \<and>
                   result t = None \<and> error t = None))"
  by (simp add: submit_analysis_def get_task_status_def Let_def begin_record)

theorem submit_then_status_witness:
  "fst (get_task_status (sample_service []) (''600519'' @ ''_'' @ ''20240105_120000_000000'')) = None \<and>
   fst (get_task_status
         (run_analysis_begin sample_fromisoformat ''600519''
            (''600519'' @ ''_'' @ ''20240105_120000_000000'') ''2024-01-05T00:00:00''
            (4 * DAY_US) (4 * DAY_US)
            (snd (submit_analysis ''20240105_120000_000000'' ''600519'' (sample_service []))))
         (''600519'' @ ''_'' @ ''20240105_120000_000000'')) =
     Some \<lparr>task_id = ''600519_20240105_120000_000000'', code = ''600519'', status = ''running'',
           start_time = Some ''2024-01-05T00:00:00'', end_time = None, result = None,
           error = None\<rparr> \<and>
   fst (get_task_status
         (snd (submit_analysis ''20240105_120000_000000'' ''600519'' (sample_service [])))
         (''600519'' @ ''_'' @ ''20240105_120000_000000'')) = None"
  using submit_then_status [where stamp = "''20240105_120000_000000''" and c = "''600519''"
          and sv = "sample_service []" and started = True and P = sample_fromisoformat
          and start_iso = "''2024-01-05T00:00:00''" and ?s1.0 = "4 * DAY_US" and ?s2.0 = "4 * DAY_US"]
        submit_then_status [where stamp = "''20240105_120000_000000''" and c = "''600519''"
          and sv = "sample_service []" and started = False and P = sample_fromisoformat
          and start_iso = "''2024-01-05T00:00:00''" and ?s1.0 = "4 * DAY_US" and ?s2.0 = "4 * DAY_US"]
  by (simp add: sample_service_def get_task_status_def dict_get_def submit_analysis_def Let_def
      run_analysis_begin_def save_tasks_def dict_set_def)

text \<open>
  C1 as stated fails: as long as no worker has started the job, the id that
  \<open>submit_analysis\<close> returned is unknown to \<open>get_task_status\<close>.
\<close>

theorem submit_counterexample:
  "fst (get_task_status
         (snd (submit_analysis ''20240105_120000_000000'' ''600519''
                (fresh_service Missing :: unit analysis_service)))
         (reply_task_id (fst (submit_analysis ''20240105_120000_000000'' ''600519''
                (fresh_service Missing :: unit analysis_service))))) = None"
  by (simp add: submit_analysis_def get_task_status_def fresh_service_def dict_get_def Let_def)


section \<open>The daily review\<close>

lemma reviews_save_reviews: "reviews (save_reviews ms) = reviews ms"
  by (simp add: save_reviews_def)

text \<open>
  C2, as the code has it. When the generation fails, \<open>get_today_review\<close> returns the
  error-shaped record (today's date, the text of the exception) but stores nothing:
  table and file are as before, and only the generation has been run once more, so the
  next call for that date runs it again. A generation that succeeds is stored under
  today's date and saved; once a record is stored for today, a call without
  \<open>force_refresh\<close> returns it and runs no generation.
\<close>

theorem get_today_review_caching:
  "(force_refresh \<or> dict_get (reviews ms) today = None \<longrightarrow>
      get_today_review today force_refresh (GenRaised e) now_iso ms =
        (\<lparr>date = today, report = None, generated_at = now_iso, overview = None,
          review_error = Some e\<rparr>,
         ms\<lparr>gen_calls := gen_calls ms + 1\<rparr>)) \<and>
   (force_refresh \<or> dict_get (reviews ms) today = None \<longrightarrow>
      fst (get_today_review today force_refresh (GenOk rep ov) now_iso ms) =
        \<lparr>date = today, report = Some rep, generated_at = now_iso, overview = Some ov,
         review_error = None\<rparr> \<and>
      dict_get (reviews (snd (get_today_review today force_refresh (GenOk rep ov) now_iso ms))) today =
        Some (fst (get_today_review today force_refresh (GenOk rep ov) now_iso ms)) \<and>
      review_file (snd (get_today_review today force_refresh (GenOk rep ov) now_iso ms)) =
        Doc (reviews (snd (get_today_review today force_refresh (GenOk rep ov) now_iso ms))) \<and>
      gen_calls (snd (get_today_review today force_refresh (GenOk rep ov) now_iso ms)) =
        gen_calls ms + 1) \<and>
   (dict_get (reviews ms) today = Some r \<longrightarrow>
      get_today_review today False gen now_iso ms = (r, ms))"
  by (auto simp: get_today_review_def Let_def save_reviews_def dict_get_set)

theorem get_today_review_caching_witness:
  "dict_get (reviews empty_market) ''2024-01-10'' = None \<and>
   snd (get_today_review ''2024-01-10'' False (GenRaised ''boom'') ''t1'' empty_market) =
     empty_market\<lparr>gen_calls := 1\<rparr> \<and>
   dict_get (reviews (snd (get_today_review ''2024-01-10'' False (GenOk ''report'' ()) ''t1'' empty_market)))
     ''2024-01-10'' =
     Some \<lparr>date = ''2024-01-10'', report = Some ''report'', generated_at = ''t1'',
           overview = Some (), review_error = None\<rparr> \<and>
   get_today_review ''2024-01-10'' False (GenRaised ''boom'') ''t2''
      (snd (get_today_review ''2024-01-10'' False (GenOk ''report'' ()) ''t1'' empty_market)) =
     (\<lparr>date = ''2024-01-10'', report = Some ''report'', generated_at = ''t1'',
           overview = Some (), review_error = None\<rparr>,
      snd (get_today_review ''2024-01-10'' False (GenOk ''report'' ()) ''t1'' empty_market))"
  using get_today_review_caching [where ms = empty_market and today = "''2024-01-10''"
          and force_refresh = False and e = "''boom''" and now_iso = "''t1''"
          and rep = "''report''" and ov = "()"]
        get_today_review_caching [where
          ms = "snd (get_today_review ''2024-01-10'' False (GenOk ''report'' ()) ''t1'' empty_market)"
          and today = "''2024-01-10''" and gen = "GenRaised ''boom''" and now_iso = "''t2''"
          and r = "\<lparr>date = ''2024-01-10'', report = Some ''report'', generated_at = ''t1'',
           overview = Some (), review_error = None\<rparr>"]
  by (simp add: empty_market_def dict_get_def)

text \<open>
  C2 as stated fails: after a failed generation on an empty cache the table has no record
  for the date, and a second call on the same date, without \<open>force_refresh\<close>, runs the
  generation a second time.
\<close>

theorem get_today_review_counterexample:
  "review_error (fst (get_today_review ''2024-01-10'' False (GenRaised ''boom'') ''t1'' empty_market)) =
     Some ''boom'' \<and>
   fst (get_review_by_date
         (snd (get_today_review ''2024-01-10'' False (GenRaised ''boom'') ''t1'' empty_market))
         ''2024-01-10'') = None \<and>
   gen_calls (snd (get_today_review ''2024-01-10'' False (GenRaised ''boom'') ''t2''
         (snd (get_today_review ''2024-01-10'' False (GenRaised ''boom'') ''t1'' empty_market)))) = 2"
  by (simp add: get_today_review_def get_review_by_date_def empty_market_def dict_get_def Let_def)


section \<open>The durable stores\<close>

text \<open>
  C3, as the code has it. \<open>_load_tasks\<close> keeps the records of the file that are valid
  and, when at least one record was dropped because its \<open>start_time\<close> parses and is
  older than 72 hours, saves at once: the file then holds the loaded table filtered at
  the time of the save. \<open>_load_reviews\<close> keeps the reviews whose date parses and lies
  at most seven days back, and never writes the file.
\<close>

theorem load_saves_after_expiry:
  "(task_file sv = Doc data \<and> distinct (map fst data) \<and> (\<exists>(k, t) \<in> set data. is_expired P now t) \<longrightarrow>
      tasks (load_tasks P now save_now sv) = filter (\<lambda>(k, t). is_valid P now t) data \<and>
      task_file (load_tasks P now save_now sv) =
        Doc (filter (\<lambda>(k, t). is_valid P save_now t) (tasks (load_tasks P now save_now sv)))) \<and>
   (review_file ms = Doc rdata \<and> distinct (map fst rdata) \<longrightarrow>
      reviews (load_reviews D now ms) = filter (\<lambda>(d, r). review_valid D now d) rdata) \<and>
   review_file (load_reviews D now ms) = review_file ms"
proof -
  have "review_file (load_reviews D now ms) = review_file ms"
    by (simp add: load_reviews_def split: json_file.splits)
  moreover have "reviews (load_reviews D now ms) = filter (\<lambda>(d, r). review_valid D now d) rdata"
    if "review_file ms = Doc rdata" "distinct (map fst rdata)"
    using that review_loop_eq[of rdata "[]" D now] by (simp add: load_reviews_def)
  ultimately show ?thesis
    using load_tasks_Doc[of sv data P now save_now] by auto
qed

theorem load_saves_after_expiry_witness:
  "task_file ((sample_service [])\<lparr>task_file :=
       Doc [(''old'', sample_task ''old'' (Some ''2024-01-01T00:00:00'')),
            (''new'', sample_task ''new'' (Some ''2024-01-04T00:00:00''))]\<rparr>) =
     Doc [(''old'', sample_task ''old'' (Some ''2024-01-01T00:00:00'')),
          (''new'', sample_task ''new'' (Some ''2024-01-04T00:00:00''))] \<and>
   distinct (map fst [(''old'', sample_task ''old'' (Some ''2024-01-01T00:00:00'')),
                      (''new'', sample_task ''new'' (Some ''2024-01-04T00:00:00''))]) \<and>
   is_expired sample_fromisoformat (4 * DAY_US) (sample_task ''old'' (Some ''2024-01-01T00:00:00'')) \<and>
   task_file (load_tasks sample_fromisoformat (4 * DAY_US) (4 * DAY_US)
       ((sample_service [])\<lparr>task_file :=
          Doc [(''old'', sample_task ''old'' (Some ''2024-01-01T00:00:00'')),
               (''new'', sample_task ''new'' (Some ''2024-01-04T00:00:00''))]\<rparr>)) =
     Doc [(''new'', sample_task ''new'' (Some ''2024-01-04T00:00:00''))] \<and>
   reviews (load_reviews sample_strptime (9 * DAY_US)
       (empty_market\<lparr>review_file := Doc [(''2024-01-01'', sample_review ''2024-01-01''),
                                          (''2024-01-10'', sample_review ''2024-01-10'')]\<rparr>)) =
     [(''2024-01-10'', sample_review ''2024-01-10'')]"
  using load_saves_after_expiry [where P = sample_fromisoformat and now = "4 * DAY_US"
      and save_now = "4 * DAY_US"
      and sv = "(sample_service [])\<lparr>task_file :=
                  Doc [(''old'', sample_task ''old'' (Some ''2024-01-01T00:00:00'')),
                       (''new'', sample_task ''new'' (Some ''2024-01-04T00:00:00''))]\<rparr>"
      and data = "[(''old'', sample_task ''old'' (Some ''2024-01-01T00:00:00'')),
                   (''new'', sample_task ''new'' (Some ''2024-01-04T00:00:00''))]"
      and D = sample_strptime
      and ms = "empty_market\<lparr>review_file := Doc [(''2024-01-01'', sample_review ''2024-01-01''),
                                          (''2024-01-10'', sample_review ''2024-01-10'')]\<rparr>"
      and rdata = "[(''2024-01-01'', sample_review ''2024-01-01''),
                    (''2024-01-10'', sample_review ''2024-01-10'')]"]
  by (simp add: sample_defs is_expired_def is_valid_def start_instant_def review_valid_def
      sample_strptime_def empty_market_def load_tasks_def load_reviews_def save_tasks_def
      dict_set_def)

text \<open>
  C3 as stated fails for both stores. A task file whose only record has no \<open>start_time\<close>
  loads to an empty table, yet the file keeps the record: dropping it sets no
  \<open>has_changes\<close>. A review file with a review nine days old loads to an empty table, and
  the file keeps the review.
\<close>

theorem load_without_save_counterexample:
  "tasks (load_tasks sample_fromisoformat (4 * DAY_US) (4 * DAY_US)
       ((sample_service [])\<lparr>task_file := Doc [(''a'', sample_task ''a'' None)]\<rparr>)) = [] \<and>
   task_file (load_tasks sample_fromisoformat (4 * DAY_US) (4 * DAY_US)
       ((sample_service [])\<lparr>task_file := Doc [(''a'', sample_task ''a'' None)]\<rparr>)) =
     Doc [(''a'', sample_task ''a'' None)] \<and>
   reviews (load_reviews sample_strptime (9 * DAY_US)
       (empty_market\<lparr>review_file := Doc [(''2024-01-01'', sample_review ''2024-01-01'')]\<rparr>)) = [] \<and>
   review_file (load_reviews sample_strptime (9 * DAY_US)
       (empty_market\<lparr>review_file := Doc [(''2024-01-01'', sample_review ''2024-01-01'')]\<rparr>)) =
     Doc [(''2024-01-01'', sample_review ''2024-01-01'')]"
  by (simp add: load_tasks_def load_reviews_def sample_defs sample_strptime_def empty_market_def
      dict_set_def)


text \<open>
  C4. Saving a table and loading the file into a service that holds nothing yet gives
  back exactly the records of the table that are valid at the time of the load, that is
  whose \<open>start_time\<close> parses and lies at most 72 hours back, in their order and unchanged.
  The clock of the load is not before the clock of the save; the table has the distinct
  keys of a dict.
\<close>

theorem save_load_round_trip:
  assumes "distinct (map fst (tasks sv))" and "save_now \<le> load_now"
  shows "tasks (load_tasks P load_now save_now' (fresh_service (task_file (save_tasks P save_now sv)))) =
           filter (\<lambda>(k, t). is_valid P load_now t) (tasks sv)"
proof -
  let ?saved = "filter (\<lambda>(k, t). is_valid P save_now t) (tasks sv)"
  have f: "task_file (fresh_service (task_file (save_tasks P save_now sv))) = Doc ?saved"
    by (simp add: fresh_service_def save_tasks_file_filter[OF assms(1)])
  have d: "distinct (map fst ?saved)"
    using assms(1) by (simp add: distinct_map_filter)
  have "tasks (load_tasks P load_now save_now' (fresh_service (task_file (save_tasks P save_now sv)))) =
          filter (\<lambda>(k, t). is_valid P load_now t) ?saved"
    by (rule load_tasks_Doc(1)[OF f d])
  also have "\<dots> = filter (\<lambda>(k, t). is_valid P load_now t) (tasks sv)"
    using is_valid_mono[OF _ assms(2)] by (auto simp: case_prod_unfold intro: filter_cong)
  finally show ?thesis .
qed

theorem save_load_round_trip_witness:
  "distinct (map fst (tasks (sample_service
      [(''old'', sample_task ''old'' (Some ''2024-01-01T00:00:00'')),
       (''bad'', sample_task ''bad'' (Some ''yesterday'')),
       (''new'', sample_task ''new'' (Some ''2024-01-04T00:00:00''))]))) \<and>
   3 * DAY_US \<le> 4 * DAY_US \<and>
   tasks (load_tasks sample_fromisoformat (4 * DAY_US) (4 * DAY_US)
     (fresh_service (task_file (save_tasks sample_fromisoformat (3 * DAY_US)
       (sample_service
         [(''old'', sample_task ''old'' (Some ''2024-01-01T00:00:00'')),
          (''bad'', sample_task ''bad'' (Some ''yesterday'')),
          (''new'', sample_task ''new'' (Some ''2024-01-04T00:00:00''))]))))) =
     [(''new'', sample_task ''new'' (Some ''2024-01-04T00:00:00''))]"
proof -
  let ?d = "[(''old'', sample_task ''old'' (Some ''2024-01-01T00:00:00'')),
             (''bad'', sample_task ''bad'' (Some ''yesterday'')),
             (''new'', sample_task ''new'' (Some ''2024-01-04T00:00:00''))]"
  have d: "distinct (map fst (tasks (sample_service ?d)))"
    by (simp add: sample_service_def)
  have l: "3 * DAY_US \<le> 4 * DAY_US"
    by (simp add: DAY_US_def)
  have f: "filter (\<lambda>(k, t). is_valid sample_fromisoformat (4 * DAY_US) t) (tasks (sample_service ?d)) =
           [(''new'', sample_task ''new'' (Some ''2024-01-04T00:00:00''))]"
    by (simp add: sample_defs is_valid_def start_instant_def)
  have "tasks (load_tasks sample_fromisoformat (4 * DAY_US) (4 * DAY_US)
     (fresh_service (task_file (save_tasks sample_fromisoformat (3 * DAY_US) (sample_service ?d))))) =
     [(''new'', sample_task ''new'' (Some ''2024-01-04T00:00:00''))]"
    using save_load_round_trip [OF d l, where P = sample_fromisoformat and save_now' = "4 * DAY_US"]
    by (simp only: f)
  with d l show ?thesis by (intro conjI)
qed


section \<open>Records without a usable start time\<close>



text \<open>
  The cleaning pass of \<open>list_tasks\<close> deletes only records whose \<open>start_time\<close> parses and
  is too old; it is the load and the worker that keep other records out of the table. On
  a table that no operation of the service produces, \<open>list_tasks\<close> would return and keep
  them.
\<close>

lemma list_tasks_on_table_set_by_hand:
  "list_tasks sample_fromisoformat (4 * DAY_US) (4 * DAY_US) 100
     (sample_service [(''a'', sample_task ''a'' None), (''b'', sample_task ''b'' (Some ''yesterday''))]) =
     ([sample_task ''b'' (Some ''yesterday''), sample_task ''a'' None],
      sample_service [(''a'', sample_task ''a'' None), (''b'', sample_task ''b'' (Some ''yesterday''))])"
  by (simp add: sample_defs list_tasks_def clean_pass_def dict_del_def dict_values_def
      py_sort_reverse_def py_slice_to_def start_key_def Let_def)


section \<open>Listing tasks\<close>

text \<open>
  C6, as the code has it. \<open>list_tasks\<close> removes from the table the records that are
  older than 72 hours at either of its two readings of the clock, leaves the file alone
  and starts one detached save for each cleaning pass that removed something. It returns
  the remaining records sorted by \<open>start_time\<close> in descending order and sliced by
  \<open>[:limit]\<close>: for a limit that is not negative these are the first \<open>limit\<close> records, at
  most \<open>limit\<close> of them. No record returned is older than 72 hours.
\<close>

theorem list_tasks_evicts_sorts_truncates:
  assumes "distinct (map fst (tasks sv))"
  shows "tasks (snd (list_tasks P now1 now2 limit sv)) =
           filter (\<lambda>(k, t). \<not> is_expired P now1 t \<and> \<not> is_expired P now2 t) (tasks sv) \<and>
         task_file (snd (list_tasks P now1 now2 limit sv)) = task_file sv \<and>
         bg_saves (snd (list_tasks P now1 now2 limit sv)) =
           bg_saves sv + (if \<exists>(k, t) \<in> set (tasks sv). is_expired P now1 t then 1 else 0)
             + (if \<exists>(k, t) \<in> set (tasks sv). \<not> is_expired P now1 t \<and> is_expired P now2 t then 1 else 0) \<and>
         fst (list_tasks P now1 now2 limit sv) =
           py_slice_to (py_sort_reverse start_key
             (map snd (tasks (snd (list_tasks P now1 now2 limit sv))))) limit \<and>
         sorted_wrt (\<lambda>a b. a \<ge> b) (map start_key (fst (list_tasks P now1 now2 limit sv))) \<and>
         (0 \<le> limit \<longrightarrow>
            fst (list_tasks P now1 now2 limit sv) =
              take (nat limit) (py_sort_reverse start_key
                (map snd (tasks (snd (list_tasks P now1 now2 limit sv))))) \<and>
            int (length (fst (list_tasks P now1 now2 limit sv))) \<le> limit) \<and>
         (\<forall>t \<in> set (fst (list_tasks P now1 now2 limit sv)). \<forall>st.
            start_instant P t = Some st \<longrightarrow> now1 - st \<le> RETENTION_US \<and> now2 - st \<le> RETENTION_US)"
proof -
  let ?L = "list_tasks P now1 now2 limit sv"
  let ?keep = "\<lambda>(k, t). \<not> is_expired P now1 t \<and> \<not> is_expired P now2 t"
  have d1: "distinct (map fst (tasks (clean_pass P now1 sv)))"
    using assms by (simp add: clean_pass_tasks distinct_map_filter)
  have st: "tasks (snd ?L) = filter ?keep (tasks sv)"
    by (rule list_tasks_state[OF assms])
  have fl: "task_file (snd ?L) = task_file sv"
    by (simp add: list_tasks_def Let_def clean_pass_file)
  have bg: "bg_saves (snd ?L) =
           bg_saves sv + (if \<exists>(k, t) \<in> set (tasks sv). is_expired P now1 t then 1 else 0)
             + (if \<exists>(k, t) \<in> set (tasks sv). \<not> is_expired P now1 t \<and> is_expired P now2 t then 1 else 0)"
  proof -
    have "(\<exists>(k, t) \<in> set (tasks (clean_pass P now1 sv)). is_expired P now2 t) =
          (\<exists>(k, t) \<in> set (tasks sv). \<not> is_expired P now1 t \<and> is_expired P now2 t)"
      by (auto simp: clean_pass_tasks[OF assms])
    then show ?thesis
      by (simp add: list_tasks_def Let_def clean_pass_bg)
  qed
  have res: "fst ?L = py_slice_to (py_sort_reverse start_key (map snd (tasks (snd ?L)))) limit"
    using list_tasks_result[of P now1 now2 limit sv] by (simp add: dict_values_def)
  have srt: "sorted_wrt (\<lambda>a b. a \<ge> b) (map start_key (fst ?L))"
  proof -
    have "map start_key (fst ?L) =
            py_slice_to (map start_key (py_sort_reverse start_key (map snd (tasks (snd ?L))))) limit"
      by (subst res) (simp add: py_slice_to_def take_map)
    then show ?thesis
      using sorted_py_slice_to[OF sorted_py_sort_reverse] by simp
  qed
  have lim: "fst ?L = take (nat limit) (py_sort_reverse start_key (map snd (tasks (snd ?L)))) \<and>
             int (length (fst ?L)) \<le> limit" if "0 \<le> limit"
  proof -
    have e: "fst ?L = take (nat limit) (py_sort_reverse start_key (map snd (tasks (snd ?L))))"
      by (subst res) (simp add: py_slice_to_def that)
    have "length (fst ?L) \<le> nat limit"
      by (subst e) simp
    then have "int (length (fst ?L)) \<le> limit"
      using that by linarith
    with e show ?thesis by simp
  qed
  have age: "now1 - s \<le> RETENTION_US \<and> now2 - s \<le> RETENTION_US"
    if "t \<in> set (fst ?L)" "start_instant P t = Some s" for t s
  proof -
    have "t \<in> set (py_slice_to (py_sort_reverse start_key (map snd (tasks (snd ?L)))) limit)"
      using that(1) by (simp only: res[symmetric])
    then have "t \<in> set (py_sort_reverse start_key (map snd (tasks (snd ?L))))"
      using set_py_slice_to by (rule rev_subsetD)
    then have "t \<in> set (map snd (tasks (snd ?L)))"
      by (simp only: set_py_sort_reverse)
    then obtain k where "(k, t) \<in> set (tasks (snd ?L))"
      by force
    then have "(k, t) \<in> set (filter ?keep (tasks sv))"
      by (simp only: st)
    then have "\<not> is_expired P now1 t \<and> \<not> is_expired P now2 t" by simp
    then show ?thesis using that(2) by (simp add: is_expired_def)
  qed
  have lim': "0 \<le> limit \<longrightarrow>
      fst ?L = take (nat limit) (py_sort_reverse start_key (map snd (tasks (snd ?L)))) \<and>
      int (length (fst ?L)) \<le> limit"
    using lim by (rule impI)
  have age': "\<forall>t \<in> set (fst ?L). \<forall>s.
      start_instant P t = Some s \<longrightarrow> now1 - s \<le> RETENTION_US \<and> now2 - s \<le> RETENTION_US"
    using age by (intro ballI allI impI)
  show ?thesis
    by (intro conjI st fl bg res srt lim' age')
qed

theorem list_tasks_evicts_sorts_truncates_witness:
  "distinct (map fst (tasks (sample_service
      [(''old'', sample_task ''old'' (Some ''2024-01-01T00:00:00'')),
       (''a'', sample_task ''a'' (Some ''2024-01-04T00:00:00'')),
       (''b'', sample_task ''b'' (Some ''2024-01-05T00:00:00''))]))) \<and>
   (0::int) \<le> 1 \<and>
   fst (list_tasks sample_fromisoformat (4 * DAY_US) (4 * DAY_US) 1
     (sample_service
      [(''old'', sample_task ''old'' (Some ''2024-01-01T00:00:00'')),
       (''a'', sample_task ''a'' (Some ''2024-01-04T00:00:00'')),
       (''b'', sample_task ''b'' (Some ''2024-01-05T00:00:00''))])) =
     [sample_task ''b'' (Some ''2024-01-05T00:00:00'')] \<and>
   start_instant sample_fromisoformat (sample_task ''b'' (Some ''2024-01-05T00:00:00'')) =
     Some (4 * DAY_US) \<and>
   tasks (snd (list_tasks sample_fromisoformat (4 * DAY_US) (4 * DAY_US) 1
     (sample_service
      [(''old'', sample_task ''old'' (Some ''2024-01-01T00:00:00'')),
       (''a'', sample_task ''a'' (Some ''2024-01-04T00:00:00'')),
       (''b'', sample_task ''b'' (Some ''2024-01-05T00:00:00''))]))) =
     [(''a'', sample_task ''a'' (Some ''2024-01-04T00:00:00'')),
      (''b'', sample_task ''b'' (Some ''2024-01-05T00:00:00''))] \<and>
   int (length (fst (list_tasks sample_fromisoformat (4 * DAY_US) (4 * DAY_US) 1
     (sample_service
      [(''old'', sample_task ''old'' (Some ''2024-01-01T00:00:00'')),
       (''a'', sample_task ''a'' (Some ''2024-01-04T00:00:00'')),
       (''b'', sample_task ''b'' (Some ''2024-01-05T00:00:00''))])))) \<le> 1"
proof -
  let ?sv = "sample_service
      [(''old'', sample_task ''old'' (Some ''2024-01-01T00:00:00'')),
       (''a'', sample_task ''a'' (Some ''2024-01-04T00:00:00'')),
       (''b'', sample_task ''b'' (Some ''2024-01-05T00:00:00''))]"
  have d: "distinct (map fst (tasks ?sv))"
    by (simp add: sample_service_def)
  have l: "(0::int) \<le> 1" by simp
  have r: "fst (list_tasks sample_fromisoformat (4 * DAY_US) (4 * DAY_US) 1 ?sv) =
             [sample_task ''b'' (Some ''2024-01-05T00:00:00'')]"
    by (simp add: sample_defs list_tasks_def clean_pass_def dict_del_def dict_values_def
      py_sort_reverse_def py_slice_to_def start_key_def Let_def)
  have i: "start_instant sample_fromisoformat (sample_task ''b'' (Some ''2024-01-05T00:00:00'')) =
     Some (4 * DAY_US)"
    by (simp add: sample_defs start_instant_def)
  have t: "tasks (snd (list_tasks sample_fromisoformat (4 * DAY_US) (4 * DAY_US) 1 ?sv)) =
     [(''a'', sample_task ''a'' (Some ''2024-01-04T00:00:00'')),
      (''b'', sample_task ''b'' (Some ''2024-01-05T00:00:00''))]"
    by (simp add: sample_defs list_tasks_def clean_pass_def dict_del_def Let_def)
  note T = list_tasks_evicts_sorts_truncates [OF d, where P = sample_fromisoformat
      and ?now1.0 = "4 * DAY_US" and ?now2.0 = "4 * DAY_US" and limit = 1]
  have b: "int (length (fst (list_tasks sample_fromisoformat (4 * DAY_US) (4 * DAY_US) 1 ?sv))) \<le> 1"
    using T l by blast
  show ?thesis
    by (intro conjI d l r i t b)
qed

text \<open>
  C6 as stated fails for a negative limit: the slice \<open>[:-1]\<close> of two records is the first
  of them, which is more than \<open>-1\<close> entries.
\<close>

theorem list_tasks_negative_limit_counterexample:
  "fst (list_tasks sample_fromisoformat (4 * DAY_US) (4 * DAY_US) (- 1)
     (sample_service
      [(''a'', sample_task ''a'' (Some ''2024-01-04T00:00:00'')),
       (''b'', sample_task ''b'' (Some ''2024-01-05T00:00:00''))])) =
     [sample_task ''b'' (Some ''2024-01-05T00:00:00'')] \<and>
   \<not> int (length (fst (list_tasks sample_fromisoformat (4 * DAY_US) (4 * DAY_US) (- 1)
     (sample_service
      [(''a'', sample_task ''a'' (Some ''2024-01-04T00:00:00'')),
       (''b'', sample_task ''b'' (Some ''2024-01-05T00:00:00''))])))) \<le> - 1"
  by (simp add: sample_defs list_tasks_def clean_pass_def dict_del_def dict_values_def
      py_sort_reverse_def py_slice_to_def start_key_def Let_def)


section \<open>The stock list of the configuration file\<close>

text \<open>
  C10, as the code has it. \<open>set_stock_list\<close> returns the normalisation of its argument
  (the argument split at commas and newlines, each part stripped, the empty parts
  removed, the rest joined by commas), and normalising twice is normalising once.
  Provided the normalised value contains no line boundary of \<open>splitlines\<close> (carriage
  return, vertical tab, form feed, the separators \<open>0x1C\<close> to \<open>0x1E\<close>, next line
  \<open>0x85\<close>) and is not enclosed in a pair of equal quotes, \<open>get_stock_list\<close> on the file
  just written returns the normalised value, whatever the file held before.
\<close>

theorem stock_list_round_trip:
  "fst (set_stock_list cs s) = normalize_stock_list s \<and>
   normalize_stock_list (normalize_stock_list s) = normalize_stock_list s \<and>
   ((\<forall>c \<in> set (normalize_stock_list s). \<not> is_linebreak c) \<and> \<not> quoted (normalize_stock_list s) \<longrightarrow>
      get_stock_list (snd (set_stock_list cs s)) = normalize_stock_list s)"
proof -
  have a: "fst (set_stock_list cs s) = normalize_stock_list s"
    by (simp add: set_stock_list_def Let_def)
  have b: "normalize_stock_list (normalize_stock_list s) = normalize_stock_list s"
    by (rule normalize_idem)
  have c: "get_stock_list (snd (set_stock_list cs s)) = normalize_stock_list s"
    if "\<forall>c \<in> set (normalize_stock_list s). \<not> is_linebreak c" and "\<not> quoted (normalize_stock_list s)"
  proof -
    have "get_stock_list (snd (set_stock_list cs s)) =
          extract_stock_list (universal_newlines
            (update_stock_list (read_env_text cs) (normalize_stock_list s)))"
      by (simp add: get_stock_list_def set_stock_list_def Let_def write_env_text_def read_env_text_def)
    also have "\<dots> = normalize_stock_list s"
      by (rule get_after_update[OF strip_normalize that(2) that(1)])
    finally show ?thesis .
  qed
  from a b c show ?thesis by blast
qed

theorem stock_list_round_trip_witness:
  "filter is_linebreak (normalize_stock_list (''600519 ,, 000001'' @ [LF] @ '' 300750 '')) = [] \<and>
   \<not> quoted (normalize_stock_list (''600519 ,, 000001'' @ [LF] @ '' 300750 '')) \<and>
   normalize_stock_list (''600519 ,, 000001'' @ [LF] @ '' 300750 '') = ''600519,000001,300750'' \<and>
   env_file (snd (set_stock_list \<lparr>env_file = Some (''A=1'' @ [LF] @ ''STOCK_LIST = 1,2  '' @ [LF])\<rparr>
      (''600519 ,, 000001'' @ [LF] @ '' 300750 ''))) =
     Some (''A=1'' @ [LF] @ ''STOCK_LIST = 600519,000001,300750  '' @ [LF]) \<and>
   get_stock_list (snd (set_stock_list \<lparr>env_file = Some (''A=1'' @ [LF] @ ''STOCK_LIST = 1,2  '' @ [LF])\<rparr>
      (''600519 ,, 000001'' @ [LF] @ '' 300750 ''))) = ''600519,000001,300750''"
proof -
  let ?s = "''600519 ,, 000001'' @ [LF] @ '' 300750 ''"
  let ?cs = "\<lparr>env_file = Some (''A=1'' @ [LF] @ ''STOCK_LIST = 1,2  '' @ [LF])\<rparr>"
  have n: "normalize_stock_list ?s = ''600519,000001,300750''"
    by code_simp
  have h0: "filter is_linebreak (normalize_stock_list ?s) = []"
    unfolding n by (simp add: is_linebreak_def)
  then have h1: "\<forall>c \<in> set (normalize_stock_list ?s). \<not> is_linebreak c"
    by (simp only: filter_empty_conv)
  have h2: "\<not> quoted (normalize_stock_list ?s)"
    unfolding n by (simp add: quoted_def)
  have f: "env_file (snd (set_stock_list ?cs ?s)) =
     Some (''A=1'' @ [LF] @ ''STOCK_LIST = 600519,000001,300750  '' @ [LF])"
    by code_simp
  have "get_stock_list (snd (set_stock_list ?cs ?s)) = normalize_stock_list ?s"
    using stock_list_round_trip[of ?cs ?s] h1 h2 by blast
  then have g: "get_stock_list (snd (set_stock_list ?cs ?s)) = ''600519,000001,300750''"
    by (simp only: n)
  show ?thesis by (intro conjI h0 h2 n f g)
qed


text \<open>
  C10 as stated fails for a value with a carriage return inside: it is kept by the
  normalisation, which is not enclosed in quotes, but ends the line when the file is read
  back, so that \<open>get_stock_list\<close> returns only what stands before it.
\<close>

theorem stock_list_carriage_return_counterexample:
  "normalize_stock_list [CHR ''a'', CR, CHR ''b''] = [CHR ''a'', CR, CHR ''b''] \<and>
   \<not> quoted (normalize_stock_list [CHR ''a'', CR, CHR ''b'']) \<and>
   get_stock_list (snd (set_stock_list \<lparr>env_file = None\<rparr> [CHR ''a'', CR, CHR ''b''])) = ''a'' \<and>
   get_stock_list (snd (set_stock_list \<lparr>env_file = None\<rparr> [CHR ''a'', CR, CHR ''b''])) \<noteq>
     normalize_stock_list [CHR ''a'', CR, CHR ''b'']"
  by code_simp

end
